theory Spec2Isabelle
  imports Complex_Main "HOL-Library.Multiset"
begin

section \<open>Data model of \<open>randomforest.py\<close>\<close>

text \<open>
  A feature vector is a numpy array of numbers; arithmetic is exact here, so a number is a
  \<open>rat\<close> and \<open>float(x)\<close> is the identity.  A dataset is a Python \<open>dict\<close> from a label
  to the list of the vectors carrying that label.  A \<open>dict\<close> iterates in insertion order and
  \<open>classify\<close> depends on that order, so the dataset is an association list whose keys are the
  labels in insertion order (pairwise distinct for a real \<open>dict\<close>, see \<open>is_dict\<close>).
  Labels are integers (\<open>int(key)\<close> is the identity on them).
\<close>

type_synonym vec = "rat list"
type_synonym dataset = "(int \<times> vec list) list"

definition is_dict :: "dataset \<Rightarrow> bool" where
  "is_dict dic = distinct (map fst dic)"

text \<open>The exceptions the code can raise, as values.\<close>

datatype error = ValueError | IndexError | ZeroDivisionError | AttributeError

text \<open>
  \<open>v[i]\<close> on a sequence of length \<open>n\<close>: an index \<open>-n \<le> i < 0\<close> counts from the end, an index
  outside \<open>-n \<le> i < n\<close> raises \<open>IndexError\<close>.
\<close>

definition getitem :: "'a list \<Rightarrow> int \<Rightarrow> error + 'a" where
  "getitem v i =
     (if 0 \<le> i \<and> i < int (length v) then Inr (v ! nat i)
      else if i < 0 \<and> - int (length v) \<le> i then Inr (v ! nat (int (length v) + i))
      else Inl IndexError)"

section \<open>Impurity and information gain\<close>

text \<open>
  \<open>gini\<close>: \<open>probs = [len(L) for L in data.values()]\<close>, then every count is divided by
  \<open>sum(probs)\<close>: the division raises \<open>ZeroDivisionError\<close> when there is a label and the
  total is zero; with no label at all the result is \<open>1 - sum([]) = 1\<close>.
\<close>

definition gini :: "dataset \<Rightarrow> error + rat" where
  "gini data =
     (let probs = map (\<lambda>L. length L) (map snd data) in
      if probs \<noteq> [] \<and> sum_list probs = 0 then Inl ZeroDivisionError
      else Inr (1 - sum_list (map (\<lambda>i. i ^ 2)
                  (map (\<lambda>prob. rat_of_nat prob / rat_of_nat (sum_list probs)) probs))))"

definition lenDictValues :: "dataset \<Rightarrow> nat" where
  "lenDictValues dic = sum_list (map (\<lambda>l. length l) (map snd dic))"

text \<open>
  \<open>infoGain\<close>: \<open>p\<close> is computed first (division by the size of \<open>c\<close>), then the three
  impurities from left to right.
\<close>

definition infoGain :: "dataset \<Rightarrow> dataset \<Rightarrow> dataset \<Rightarrow> error + rat" where
  "infoGain c c1 c2 =
     (if lenDictValues c = 0 then Inl ZeroDivisionError
      else let p = rat_of_nat (lenDictValues c1) / rat_of_nat (lenDictValues c) in
        (case gini c of Inl e \<Rightarrow> Inl e | Inr g \<Rightarrow>
        (case gini c1 of Inl e \<Rightarrow> Inl e | Inr g1 \<Rightarrow>
        (case gini c2 of Inl e \<Rightarrow> Inl e | Inr g2 \<Rightarrow>
           Inr (g - (p * g1 + (1 - p) * g2))))))"


section \<open>Impurity and gain in machine arithmetic\<close>

text \<open>
  The two functions above compute with exact rationals.  The program computes with doubles:
  every finite double is a rational number and a comparison of two doubles is the comparison
  of these rationals, but each operation returns a rounded result, which depends on the
  platform (the summation of \<open>sum\<close>, the library's \<open>pow\<close>).  The functions that branch on a
  computed gain or impurity therefore take the arithmetic as a parameter: the quotient of two
  lengths (\<open>i / sum(probs)\<close>, \<open>lenDictValues(c1) / lenDictValues(c)\<close>), the square \<open>i ** 2\<close>, the
  sum of a list, and \<open>+\<close>, \<open>-\<close>, \<open>*\<close> on doubles.  The numbers that occur are quotients of
  two lengths and sums, squares, products and differences of such, so they are finite: no
  infinity and no NaN arises.  \<open>exact_arith\<close> is the arithmetic without rounding, under
  which \<open>gini_fl\<close> and \<open>infoGain_fl\<close> are \<open>gini\<close> and \<open>infoGain\<close>.
\<close>

record arith =
  int_div :: "nat \<Rightarrow> nat \<Rightarrow> rat"
  fpow2 :: "rat \<Rightarrow> rat"
  fsum :: "rat list \<Rightarrow> rat"
  fadd :: "rat \<Rightarrow> rat \<Rightarrow> rat"
  fsub :: "rat \<Rightarrow> rat \<Rightarrow> rat"
  fmul :: "rat \<Rightarrow> rat \<Rightarrow> rat"

definition exact_arith :: arith where
  "exact_arith =
     \<lparr>int_div = (\<lambda>n m. rat_of_nat n / rat_of_nat m), fpow2 = (\<lambda>x. x ^ 2), fsum = sum_list,
      fadd = (\<lambda>x y. x + y), fsub = (\<lambda>x y. x - y), fmul = (\<lambda>x y. x * y)\<rparr>"

text \<open>
  \<open>gini\<close> as the machine computes it.  With no label \<open>sum([])\<close> is the integer 0 and the
  result is the integer \<open>1 - 0 = 1\<close>, without any rounding.
\<close>

definition gini_fl :: "arith \<Rightarrow> dataset \<Rightarrow> error + rat" where
  "gini_fl ar data =
     (let probs = map (\<lambda>L. length L) (map snd data) in
      if probs \<noteq> [] \<and> sum_list probs = 0 then Inl ZeroDivisionError
      else if probs = [] then Inr 1
      else Inr (fsub ar 1 (fsum ar (map (\<lambda>i. fpow2 ar i)
                  (map (\<lambda>prob. int_div ar prob (sum_list probs)) probs)))))"

text \<open>\<open>infoGain\<close> as the machine computes it: \<open>gini(c) - (p*gini(c1) + (1-p)*gini(c2))\<close>.\<close>

definition infoGain_fl :: "arith \<Rightarrow> dataset \<Rightarrow> dataset \<Rightarrow> dataset \<Rightarrow> error + rat" where
  "infoGain_fl ar c c1 c2 =
     (if lenDictValues c = 0 then Inl ZeroDivisionError
      else let p = int_div ar (lenDictValues c1) (lenDictValues c) in
        (case gini_fl ar c of Inl e \<Rightarrow> Inl e | Inr g \<Rightarrow>
        (case gini_fl ar c1 of Inl e \<Rightarrow> Inl e | Inr g1 \<Rightarrow>
        (case gini_fl ar c2 of Inl e \<Rightarrow> Inl e | Inr g2 \<Rightarrow>
           Inr (fsub ar g (fadd ar (fmul ar p g1) (fmul ar (fsub ar 1 p) g2)))))))"

section \<open>Accuracy\<close>

text \<open>
  \<open>score\<close>: the loop \<open>for i in range(n)\<close> with \<open>n = len(guessed_labels)\<close> adds one for every
  position where the two labels agree; \<open>true_labels[i]\<close> raises \<open>IndexError\<close> when
  \<open>true_labels\<close> is shorter.  After the loop \<open>score / n\<close> raises \<open>ZeroDivisionError\<close> when
  \<open>n = 0\<close>.
\<close>

fun score_loop :: "int list \<Rightarrow> int list \<Rightarrow> nat list \<Rightarrow> nat \<Rightarrow> error + nat" where
  "score_loop guessed_labels true_labels [] score = Inr score"
| "score_loop guessed_labels true_labels (i # is) score =
     (if i < length true_labels
      then score_loop guessed_labels true_labels is
             (score + (if guessed_labels ! i = true_labels ! i then 1 else 0))
      else Inl IndexError)"

definition score :: "int list \<Rightarrow> int list \<Rightarrow> error + rat" where
  "score guessed_labels true_labels =
     (let n = length guessed_labels in
      case score_loop guessed_labels true_labels [0..<n] 0 of
        Inl e \<Rightarrow> Inl e
      | Inr s \<Rightarrow> if n = 0 then Inl ZeroDivisionError else Inr (rat_of_nat s / rat_of_nat n))"

section \<open>The random source\<close>

text \<open>
  The module-level generator of \<open>random\<close> is hidden state.  Here it is an explicit, infinite
  sequence of natural numbers that is passed along: a draw below \<open>n\<close> reduces the head
  modulo \<open>n\<close> and leaves the tail, so every index below \<open>n\<close> can come out.
\<close>

type_synonym rng = "nat \<Rightarrow> nat"

definition randbelow :: "nat \<Rightarrow> rng \<Rightarrow> nat \<times> rng" where
  "randbelow n r = (r 0 mod n, \<lambda>i. r (Suc i))"

text \<open>\<open>random.choice(seq)\<close>: \<open>IndexError\<close> on an empty sequence, else one of its elements.\<close>

definition rd_choice :: "'a list \<Rightarrow> rng \<Rightarrow> error + ('a \<times> rng)" where
  "rd_choice seq r =
     (if seq = [] then Inl IndexError
      else case randbelow (length seq) r of (j, r') \<Rightarrow> Inr (seq ! j, r'))"

text \<open>
  \<open>random.sample(population, k)\<close>: \<open>ValueError\<close> unless \<open>0 \<le> k \<le> len(population)\<close>, else
  \<open>k\<close> elements at pairwise different positions, each taken out of the pool once drawn.
\<close>

fun sample_loop :: "'a list \<Rightarrow> nat \<Rightarrow> rng \<Rightarrow> 'a list \<times> rng" where
  "sample_loop pool 0 r = ([], r)"
| "sample_loop pool (Suc k) r =
     (case randbelow (length pool) r of (j, r1) \<Rightarrow>
        (case sample_loop (take j pool @ drop (Suc j) pool) k r1 of (rest, r2) \<Rightarrow>
           (pool ! j # rest, r2)))"

definition rd_sample :: "'a list \<Rightarrow> int \<Rightarrow> rng \<Rightarrow> error + ('a list \<times> rng)" where
  "rd_sample population k r =
     (if k < 0 \<or> int (length population) < k then Inl ValueError
      else Inr (sample_loop population (nat k) r))"

section \<open>Trees\<close>

text \<open>
  A \<open>Node\<close> object: its dataset, its question and its two sons, each son and the question
  possibly \<open>None\<close>.  The \<open>father\<close> back-reference is never read by the functions below and is
  left out.  \<open>Node_init\<close> is the constructor \<open>Node(data)\<close>.
\<close>

datatype node =
  Node (data: dataset) (question: "(int \<times> rat) option")
       (left_son: "node option") (right_son: "node option")

definition Node_init :: "dataset \<Rightarrow> node" where
  "Node_init d = Node d None None None"

fun depth :: "node \<Rightarrow> nat" where
  "depth (Node d q l r) =
     (if r = None \<and> l = None then 0
      else
        let max_left = (case l of None \<Rightarrow> 0
                        | Some n \<Rightarrow> if depth n > 0 then depth n else 0);
            max_right = (case r of None \<Rightarrow> 0
                        | Some n \<Rightarrow> if depth n > 0 then depth n else 0);
            m = (if max_left \<ge> max_right then max_left else max_right)
        in m + 1)"


section \<open>Candidate cuts\<close>

text \<open>
  \<open>c[key].append(v)\<close> on a \<open>defaultdict(list)\<close>: a key that is absent is inserted last, with
  the one-element list.
\<close>

fun dd_append :: "dataset \<Rightarrow> int \<Rightarrow> vec \<Rightarrow> dataset" where
  "dd_append [] key v = [(key, [v])]"
| "dd_append ((k, l) # c) key v =
     (if k = key then (k, l @ [v]) # c else (k, l) # dd_append c key v)"

text \<open>The comprehension \<open>[v[random_feature] for v in points]\<close>.\<close>

fun getitems :: "vec list \<Rightarrow> int \<Rightarrow> error + rat list" where
  "getitems [] f = Inr []"
| "getitems (v # points) f =
     (case getitem v f of Inl e \<Rightarrow> Inl e
      | Inr x \<Rightarrow> (case getitems points f of Inl e \<Rightarrow> Inl e | Inr xs \<Rightarrow> Inr (x # xs)))"

text \<open>The inner loop \<open>for v in l\<close> and the outer loop \<open>for key, l in node.data.items()\<close>.\<close>

fun cut_inner :: "int \<Rightarrow> rat \<Rightarrow> int \<Rightarrow> vec list \<Rightarrow> dataset \<times> dataset \<Rightarrow> error + (dataset \<times> dataset)" where
  "cut_inner f decisional_value key [] (c1, c2) = Inr (c1, c2)"
| "cut_inner f decisional_value key (v # l) (c1, c2) =
     (case getitem v f of Inl e \<Rightarrow> Inl e
      | Inr x \<Rightarrow>
          if x < decisional_value
          then cut_inner f decisional_value key l (dd_append c1 key v, c2)
          else cut_inner f decisional_value key l (c1, dd_append c2 key v))"

fun cut_outer :: "int \<Rightarrow> rat \<Rightarrow> dataset \<Rightarrow> dataset \<times> dataset \<Rightarrow> error + (dataset \<times> dataset)" where
  "cut_outer f decisional_value [] cs = Inr cs"
| "cut_outer f decisional_value ((key, l) # items) cs =
     (case cut_inner f decisional_value key l cs of Inl e \<Rightarrow> Inl e
      | Inr cs' \<Rightarrow> cut_outer f decisional_value items cs')"

text \<open>
  \<open>generateCut\<close> reads the dataset of the node.  \<open>random_feature\<close> is the one-element list
  that \<open>rd.sample(features, 1)\<close> returns; indexing a vector with it reads the vector at that
  one feature (\<open>hd random_feature\<close>).
\<close>

definition generateCut ::
  "node \<Rightarrow> int list \<Rightarrow> rng \<Rightarrow> error + (dataset \<times> dataset \<times> int list \<times> rat \<times> rng)" where
  "generateCut node features r =
     (case rd_sample features 1 r of Inl e \<Rightarrow> Inl e
      | Inr (random_feature, r1) \<Rightarrow>
          if length (data node) \<noteq> 0 then
            (let points = concat (map snd (data node)) in
             case getitems points (hd random_feature) of Inl e \<Rightarrow> Inl e
             | Inr vals \<Rightarrow>
                (case rd_choice vals r1 of Inl e \<Rightarrow> Inl e
                 | Inr (decisional_value, r2) \<Rightarrow>
                    (case cut_outer (hd random_feature) decisional_value (data node) ([], []) of
                       Inl e \<Rightarrow> Inl e
                     | Inr (c1, c2) \<Rightarrow> Inr (c1, c2, random_feature, decisional_value, r2))))
          else Inr ([], [], random_feature, 0, r1))"

text \<open>
  \<open>bestCut\<close>: the first cut and its gain, then the loop \<open>for _ in range(nb_cut-1)\<close>, which
  runs \<open>nat (nb_cut - 1)\<close> times and carries the best gain and cut found so far.  The gains
  compared by \<open>info > best_info\<close> are the ones the machine computed.
\<close>

fun bestCut_loop ::
  "arith \<Rightarrow> node \<Rightarrow> int list \<Rightarrow> nat \<Rightarrow> rat \<times> dataset \<times> dataset \<times> int list \<times> rat \<Rightarrow> rng \<Rightarrow>
   error + ((rat \<times> dataset \<times> dataset \<times> int list \<times> rat) \<times> rng)" where
  "bestCut_loop ar node features 0 best r = Inr (best, r)"
| "bestCut_loop ar node features (Suc n) best r =
     (case generateCut node features r of Inl e \<Rightarrow> Inl e
      | Inr (c1, c2, random_feature, decisional_value, r') \<Rightarrow>
          if length c1 = 0 \<or> length c2 = 0 then bestCut_loop ar node features n best r'
          else (case infoGain_fl ar (data node) c1 c2 of Inl e \<Rightarrow> Inl e
                | Inr info \<Rightarrow>
                    if info > fst best
                    then bestCut_loop ar node features n
                           (info, c1, c2, random_feature, decisional_value) r'
                    else bestCut_loop ar node features n best r'))"

definition bestCut ::
  "arith \<Rightarrow> node \<Rightarrow> int \<Rightarrow> int list \<Rightarrow> rng \<Rightarrow>
   error + (rat \<times> dataset \<times> dataset \<times> (int \<times> rat) \<times> rng)" where
  "bestCut ar node nb_cut features r =
     (case generateCut node features r of Inl e \<Rightarrow> Inl e
      | Inr (best_c1, best_c2, best_feature, best_decisional_value, r1) \<Rightarrow>
         (case infoGain_fl ar (data node) best_c1 best_c2 of Inl e \<Rightarrow> Inl e
          | Inr best_info \<Rightarrow>
             (case bestCut_loop ar node features (nat (nb_cut - 1))
                     (best_info, best_c1, best_c2, best_feature, best_decisional_value) r1 of
                Inl e \<Rightarrow> Inl e
              | Inr ((info, c1, c2, feature, decisional_value), r2) \<Rightarrow>
                  Inr (info, c1, c2, (hd feature, decisional_value), r2))))"


section \<open>Classification\<close>

text \<open>
  \<open>np.argmax\<close> of a list of lengths: \<open>ValueError\<close> on the empty list, else the index of the
  first occurrence of the greatest element.
\<close>

fun argmax_scan :: "nat list \<Rightarrow> nat \<Rightarrow> nat \<Rightarrow> nat \<Rightarrow> nat" where
  "argmax_scan [] i best_i best = best_i"
| "argmax_scan (x # xs) i best_i best =
     (if x > best then argmax_scan xs (Suc i) i x else argmax_scan xs (Suc i) best_i best)"

definition np_argmax :: "nat list \<Rightarrow> error + nat" where
  "np_argmax xs = (case xs of [] \<Rightarrow> Inl ValueError | x # xs' \<Rightarrow> Inr (argmax_scan xs' 1 0 x))"

text \<open>
  The loop of \<open>classify\<close>, entered with a node that is not \<open>None\<close>: it stops when the node
  has no question or \<open>exists_son\<close> is false; otherwise it reads \<open>element[node.question[0]]\<close>,
  steps to the left son when that value is \<open>\<le>\<close> the decisional value and to the right son
  otherwise, and reads the sons of the new node, which raises \<open>AttributeError\<close> when the new
  node is \<open>None\<close>.
\<close>

fun classify_loop :: "node \<Rightarrow> bool \<Rightarrow> vec \<Rightarrow> error + node" where
  "classify_loop (Node d q l r) exists_son element =
     (case q of
        None \<Rightarrow> Inr (Node d q l r)
      | Some (feature, decisional_value) \<Rightarrow>
          if \<not> exists_son then Inr (Node d q l r)
          else (case getitem element feature of Inl e \<Rightarrow> Inl e
                | Inr x \<Rightarrow>
                    if x \<le> decisional_value
                    then (case l of None \<Rightarrow> Inl AttributeError
                          | Some son \<Rightarrow>
                              classify_loop son
                                (\<not> (left_son son = None \<and> right_son son = None)) element)
                    else (case r of None \<Rightarrow> Inl AttributeError
                          | Some son \<Rightarrow>
                              classify_loop son
                                (\<not> (left_son son = None \<and> right_son son = None)) element)))"

definition classify :: "node \<Rightarrow> vec \<Rightarrow> error + int" where
  "classify root_node element =
     (case classify_loop root_node True element of Inl e \<Rightarrow> Inl e
      | Inr node \<Rightarrow>
          (case np_argmax (map (\<lambda>points. length points) (map snd (data node))) of
             Inl e \<Rightarrow> Inl e
           | Inr majoritary_index \<Rightarrow> getitem (map fst (data node)) (int majoritary_index)))"

section \<open>Sampling a dataset\<close>

text \<open>
  \<open>sampleDict\<close>: for every drawn flat position \<open>i\<close> the inner loop walks the items, taking
  the length of each list off \<open>i\<close> until \<open>i\<close> falls inside a list, and appends that vector
  under its label.
\<close>

fun sample_pick :: "dataset \<Rightarrow> nat \<Rightarrow> dataset \<Rightarrow> dataset" where
  "sample_pick [] i d = d"
| "sample_pick ((k, v) # items) i d =
     (if i < length v then dd_append d k (v ! i) else sample_pick items (i - length v) d)"

fun sample_fill :: "dataset \<Rightarrow> nat list \<Rightarrow> dataset \<Rightarrow> dataset" where
  "sample_fill dic [] d = d"
| "sample_fill dic (i # idx) d = sample_fill dic idx (sample_pick dic i d)"

definition sampleDict :: "dataset \<Rightarrow> int \<Rightarrow> rng \<Rightarrow> error + (dataset \<times> rng)" where
  "sampleDict dic sample_size r =
     (case rd_sample [0..<lenDictValues dic] sample_size r of Inl e \<Rightarrow> Inl e
      | Inr (idx, r') \<Rightarrow> Inr (sample_fill dic idx [], r'))"

section \<open>Building the tree\<close>

text \<open>
  \<open>partition\<close> gives the node its question and two new sons; \<open>decisionTree\<close> then grows
  each son in place.  Here the sons are grown first and attached grown.
\<close>

definition partition_node :: "node \<Rightarrow> node \<Rightarrow> node \<Rightarrow> int \<times> rat \<Rightarrow> node" where
  "partition_node node left right q = Node (data node) (Some q) (Some left) (Some right)"

text \<open>
  \<open>decisionTree\<close> stops on \<open>gini(node.data) == 0 or gain == 0 or node.depth() == max_depth\<close>,
  three tests on machine numbers, and otherwise calls itself on both sons with
  \<open>max_depth - 1\<close>.  Nothing in the function bounds the nesting of these calls when
  \<open>max_depth\<close> is negative, so the model counts them: \<open>fuel\<close> is the number of nested calls
  that are allowed, and \<open>None\<close> says that they were used up before the function returned.
  \<open>Some (Inl e)\<close> is an exception raised, \<open>Some (Inr (tree, r))\<close> the tree returned.
\<close>

fun decisionTree ::
  "nat \<Rightarrow> arith \<Rightarrow> node \<Rightarrow> int \<Rightarrow> int list \<Rightarrow> int \<Rightarrow> rng \<Rightarrow> (error + (node \<times> rng)) option" where
  "decisionTree 0 ar node nb_cut_to_find_best features max_depth r = None"
| "decisionTree (Suc fuel) ar node nb_cut_to_find_best features max_depth r =
     (case bestCut ar node nb_cut_to_find_best features r of Inl e \<Rightarrow> Some (Inl e)
      | Inr (gain, c1, c2, q, r1) \<Rightarrow>
         (case gini_fl ar (data node) of Inl e \<Rightarrow> Some (Inl e)
          | Inr g \<Rightarrow>
             if g = 0 \<or> gain = 0 \<or> int (depth node) = max_depth then Some (Inr (node, r1))
             else
               (case decisionTree fuel ar (Node_init c1) nb_cut_to_find_best features
                       (max_depth - 1) r1 of
                  None \<Rightarrow> None
                | Some (Inl e) \<Rightarrow> Some (Inl e)
                | Some (Inr (left, r2)) \<Rightarrow>
                   (case decisionTree fuel ar (Node_init c2) nb_cut_to_find_best features
                           (max_depth - 1) r2 of
                      None \<Rightarrow> None
                    | Some (Inl e) \<Rightarrow> Some (Inl e)
                    | Some (Inr (right, r3)) \<Rightarrow>
                        Some (Inr (partition_node node left right q, r3))))))"


section \<open>Notions used in the statements\<close>

text \<open>The labels that have at least one vector, and the number of vectors of each label.\<close>

definition labels_present :: "dataset \<Rightarrow> int set" where
  "labels_present dic = set (map fst (filter (\<lambda>x. snd x \<noteq> []) dic))"

definition label_counts :: "dataset \<Rightarrow> nat list" where
  "label_counts dic = map (\<lambda>L. length L) (map snd dic)"

text \<open>An index that \<open>v[f]\<close> accepts.\<close>

definition valid_index :: "vec \<Rightarrow> int \<Rightarrow> bool" where
  "valid_index v f = (- int (length v) \<le> f \<and> f < int (length v))"

text \<open>The two sides of the test \<open>v[random_feature] < decisional_value\<close> of \<open>generateCut\<close>.\<close>

definition goes_left :: "int \<Rightarrow> rat \<Rightarrow> vec \<Rightarrow> bool" where
  "goes_left f t v = (case getitem v f of Inl e \<Rightarrow> False | Inr x \<Rightarrow> x < t)"

definition goes_right :: "int \<Rightarrow> rat \<Rightarrow> vec \<Rightarrow> bool" where
  "goes_right f t v = (case getitem v f of Inl e \<Rightarrow> False | Inr x \<Rightarrow> x \<ge> t)"

text \<open>The items of a dataset restricted to the vectors that satisfy \<open>P\<close>, labels left without a vector dropped: what a \<open>defaultdict\<close> holds after the vectors satisfying \<open>P\<close> were appended under their labels, label by label.\<close>

definition split_by :: "(vec \<Rightarrow> bool) \<Rightarrow> dataset \<Rightarrow> dataset" where
  "split_by P dic = filter (\<lambda>(k, l). l \<noteq> []) (map (\<lambda>(k, l). (k, filter P l)) dic)"

text \<open>All the vectors of a dataset, label after label (the list \<open>points\<close> of \<open>generateCut\<close>).\<close>

definition points_of :: "dataset \<Rightarrow> vec list" where
  "points_of dic = concat (map snd dic)"

text \<open>The entry of one label in a \<open>defaultdict\<close>: absent as long as no vector was appended.\<close>

definition opt_entry :: "int \<Rightarrow> vec list \<Rightarrow> dataset" where
  "opt_entry key xs = (if xs = [] then [] else [(key, xs)])"

text \<open>What every \<open>defaultdict\<close> filled by appending satisfies: distinct labels, no empty list.\<close>

definition dd_ok :: "dataset \<Rightarrow> bool" where
  "dd_ok c = (is_dict c \<and> [] \<notin> set (map snd c))"

text \<open>A dataset without its labels that have no vector.\<close>

definition clean :: "dataset \<Rightarrow> dataset" where
  "clean dic = filter (\<lambda>(k, l). l \<noteq> []) dic"

text \<open>A gain and a cut that some call of \<open>generateCut\<close> on the node produces.\<close>

definition is_candidate ::
  "arith \<Rightarrow> node \<Rightarrow> int list \<Rightarrow> rat \<times> dataset \<times> dataset \<times> int list \<times> rat \<Rightarrow> bool" where
  "is_candidate ar node features x =
     (case x of (info, c1, c2, rf, t) \<Rightarrow>
        (\<exists>r r'. generateCut node features r = Inr (c1, c2, rf, t, r')) \<and>
        infoGain_fl ar (data node) c1 c2 = Inr info)"

text \<open>
  What the statements about machine arithmetic assume of it: the results that involve only
  0 and 1 are exact.  \<open>0/n = 0\<close>, \<open>n/n = 1\<close>, \<open>0 ** 2 = 0\<close>, \<open>0 + x = x + 0 = x\<close>, \<open>x - x = 0\<close>,
  \<open>1 - 0 = 1\<close>, \<open>1 * x = x\<close> and \<open>0 * 1 = 0\<close> hold for doubles, and a term 0 in a list does not
  change the sum that \<open>sum\<close> computes for it.  Nothing is assumed of any other result.
\<close>

definition units_exact :: "arith \<Rightarrow> bool" where
  "units_exact ar =
     ((\<forall>n. 0 < n \<longrightarrow> int_div ar 0 n = 0) \<and> (\<forall>n. 0 < n \<longrightarrow> int_div ar n n = 1) \<and>
      fpow2 ar 0 = 0 \<and>
      (\<forall>xs ys. fsum ar (xs @ 0 # ys) = fsum ar (xs @ ys)) \<and>
      (\<forall>x. fadd ar 0 x = x) \<and> (\<forall>x. fadd ar x 0 = x) \<and>
      (\<forall>x. fsub ar x x = 0) \<and> fsub ar 1 0 = 1 \<and>
      (\<forall>x. fmul ar 1 x = x) \<and> fmul ar 0 1 = 0)"


text \<open>A property of every node of a tree.\<close>

fun all_nodes :: "(node \<Rightarrow> bool) \<Rightarrow> node \<Rightarrow> bool" where
  "all_nodes P (Node d q l r) =
     (P (Node d q l r) \<and>
      (case l of None \<Rightarrow> True | Some n \<Rightarrow> all_nodes P n) \<and>
      (case r of None \<Rightarrow> True | Some n \<Rightarrow> all_nodes P n))"

text \<open>A question exactly with two sons, and never one son alone.\<close>

definition sons_match_question :: "node \<Rightarrow> bool" where
  "sons_match_question n =
     ((question n \<noteq> None \<longleftrightarrow> left_son n \<noteq> None \<and> right_son n \<noteq> None) \<and>
      (left_son n = None \<longleftrightarrow> right_son n = None))"

text \<open>A non-empty list of features, each of which indexes every vector of the dataset.\<close>

definition valid_features :: "dataset \<Rightarrow> int list \<Rightarrow> bool" where
  "valid_features dic features =
     (features \<noteq> [] \<and> list_all (\<lambda>v. list_all (\<lambda>f. valid_index v f) features) (points_of dic))"

text \<open>
  Routing as the specification words it: while the current node has a question, go to the
  left son if \<open>vector[featureIndex] \<le> threshold\<close> and to the right son otherwise.
\<close>

fun route :: "node \<Rightarrow> vec \<Rightarrow> error + node" where
  "route (Node d q l r) v =
     (case q of
        None \<Rightarrow> Inr (Node d q l r)
      | Some (featureIndex, threshold) \<Rightarrow>
          (case getitem v featureIndex of Inl e \<Rightarrow> Inl e
           | Inr x \<Rightarrow>
               if x \<le> threshold
               then (case l of None \<Rightarrow> Inl AttributeError | Some son \<Rightarrow> route son v)
               else (case r of None \<Rightarrow> Inl AttributeError | Some son \<Rightarrow> route son v)))"

text \<open>The question of a node, if any, asks about one of the given features.\<close>

definition question_in :: "int list \<Rightarrow> node \<Rightarrow> bool" where
  "question_in features n = (case question n of None \<Rightarrow> True | Some (f, t) \<Rightarrow> f \<in> set features)"

text \<open>The vector has a value at the feature that the question of the node, if any, asks about.\<close>

definition answers :: "vec \<Rightarrow> node \<Rightarrow> bool" where
  "answers v n = (case question n of None \<Rightarrow> True | Some (f, t) \<Rightarrow> valid_index v f)"

text \<open>The vectors that a dataset holds under a label (none when the label is absent).\<close>

definition vectors_of :: "dataset \<Rightarrow> int \<Rightarrow> vec list" where
  "vectors_of dic k = concat (map snd (filter (\<lambda>x. fst x = k) dic))"

text \<open>
  \<open>left\<close> and \<open>right\<close> partition the vectors of \<open>parent\<close> and keep their labels: under
  every label, the vectors of \<open>parent\<close> are those of \<open>left\<close> together with those of \<open>right\<close>.
\<close>

definition is_partition :: "dataset \<Rightarrow> dataset \<Rightarrow> dataset \<Rightarrow> bool" where
  "is_partition parent left right =
     (is_dict parent \<and> is_dict left \<and> is_dict right \<and>
      list_all (\<lambda>k. mset (vectors_of parent k) = mset (vectors_of left k) + mset (vectors_of right k))
        (map fst parent @ map fst left @ map fst right))"

text \<open>
  The flattened dataset: every vector with its label, label after label, so that the flat
  position \<open>i\<close> of a dataset is \<open>flat_items dic ! i\<close>.
\<close>

definition flat_items :: "dataset \<Rightarrow> (int \<times> vec) list" where
  "flat_items dic = concat (map (\<lambda>(k, l). map (\<lambda>v. (k, v)) l) dic)"

text \<open>
  The candidate cuts as the specification words them: \<open>n\<close> cuts drawn one after the other
  from the random source; a cut is degenerate when a side has no label; the computed gain of
  a cut is below (at most) a value.
\<close>

fun draw_cuts ::
  "node \<Rightarrow> int list \<Rightarrow> nat \<Rightarrow> rng \<Rightarrow> error + ((dataset \<times> dataset \<times> int list \<times> rat) list \<times> rng)" where
  "draw_cuts node features 0 r = Inr ([], r)"
| "draw_cuts node features (Suc n) r =
     (case generateCut node features r of Inl e \<Rightarrow> Inl e
      | Inr (c1, c2, rf, t, r1) \<Rightarrow>
          (case draw_cuts node features n r1 of Inl e \<Rightarrow> Inl e
           | Inr (cuts, r2) \<Rightarrow> Inr ((c1, c2, rf, t) # cuts, r2)))"

definition degenerate :: "dataset \<times> dataset \<times> int list \<times> rat \<Rightarrow> bool" where
  "degenerate cand = (length (fst cand) = 0 \<or> length (fst (snd cand)) = 0)"

definition gain_lt :: "arith \<Rightarrow> node \<Rightarrow> rat \<Rightarrow> dataset \<times> dataset \<times> int list \<times> rat \<Rightarrow> bool" where
  "gain_lt ar node g cand =
     (case infoGain_fl ar (data node) (fst cand) (fst (snd cand)) of Inl e \<Rightarrow> False | Inr x \<Rightarrow> x < g)"

definition gain_le :: "arith \<Rightarrow> node \<Rightarrow> rat \<Rightarrow> dataset \<times> dataset \<times> int list \<times> rat \<Rightarrow> bool" where
  "gain_le ar node g cand =
     (case infoGain_fl ar (data node) (fst cand) (fst (snd cand)) of Inl e \<Rightarrow> False | Inr x \<Rightarrow> x \<le> g)"

section \<open>Properties of \<open>score\<close>\<close>

lemma score_loop_count:
  "\<forall>i \<in> set is. i < length t \<Longrightarrow>
   score_loop g t is s = Inr (s + length (filter (\<lambda>i. g ! i = t ! i) is))"
  by (induction "is" arbitrary: s) auto

text \<open>
  C3 (as the code has it): on an empty predicted sequence \<open>score\<close> does not return \<open>0\<close>, it
  raises \<open>ZeroDivisionError\<close>, whatever the true labels are; on non-empty sequences of equal
  length it returns the number of positions \<open>i\<close> with \<open>predicted[i] == trueLabels[i]\<close> divided
  by the length.
\<close>

theorem score_fraction:
  "score [] true_labels = Inl ZeroDivisionError \<and>
   (guessed_labels \<noteq> [] \<and> length guessed_labels = length true_labels \<longrightarrow>
    score guessed_labels true_labels =
      Inr (rat_of_nat (card {i. i < length guessed_labels \<and> guessed_labels ! i = true_labels ! i})
           / rat_of_nat (length guessed_labels)))"
proof -
  have empty: "score [] true_labels = Inl ZeroDivisionError"
    by (simp add: score_def)
  have frac: "score guessed_labels true_labels =
      Inr (rat_of_nat (card {i. i < length guessed_labels \<and> guessed_labels ! i = true_labels ! i})
           / rat_of_nat (length guessed_labels))"
    if ne: "guessed_labels \<noteq> []" and len: "length guessed_labels = length true_labels"
  proof -
    let ?n = "length guessed_labels"
    let ?P = "\<lambda>i. guessed_labels ! i = true_labels ! i"
    have "\<forall>i \<in> set [0..<?n]. i < length true_labels"
      using len by simp
    then have loop: "score_loop guessed_labels true_labels [0..<?n] 0 =
        Inr (0 + length (filter ?P [0..<?n]))"
      by (rule score_loop_count)
    have "set (filter ?P [0..<?n]) = {i. i < ?n \<and> ?P i}"
      by auto
    moreover have "distinct (filter ?P [0..<?n])"
      by simp
    ultimately have "length (filter ?P [0..<?n]) = card {i. i < ?n \<and> ?P i}"
      using distinct_card by metis
    with loop ne show ?thesis
      by (simp add: score_def Let_def)
  qed
  from empty frac show ?thesis by blast
qed

theorem score_fraction_witness:
  "score [1, 0, 1, 1] [1, 1, 1, 0] = Inr (1 / 2)"
proof -
  have set_eq: "{i. i < length [1, 0, 1, 1 :: int] \<and> [1, 0, 1, 1 :: int] ! i = [1, 1, 1, 0] ! i} = {0, 2}"
    (is "?A = _")
  proof
    show "?A \<subseteq> {0, 2}"
    proof
      fix i assume "i \<in> ?A"
      then have i: "i < 4" and eq: "[1, 0, 1, 1 :: int] ! i = [1, 1, 1, 0] ! i"
        by simp_all
      from i have "i = 0 \<or> i = 1 \<or> i = 2 \<or> i = 3"
        by arith
      with eq show "i \<in> {0, 2}"
        by (elim disjE) simp_all
    qed
    show "{0, 2} \<subseteq> ?A"
      by simp
  qed
  have "score [1, 0, 1, 1] [1, 1, 1, 0] =
      Inr (rat_of_nat (card {i. i < length [1, 0, 1, 1 :: int] \<and> [1, 0, 1, 1 :: int] ! i = [1, 1, 1, 0] ! i})
           / rat_of_nat (length [1, 0, 1, 1 :: int]))"
    using score_fraction [of "[1, 1, 1, 0]" "[1, 0, 1, 1]"] by simp
  then show ?thesis
    unfolding set_eq by simp
qed

theorem score_empty_counterexample:
  "score [] [] = Inl ZeroDivisionError \<and> score [] [] \<noteq> Inr 0"
  by (simp add: score_def)

section \<open>Bounds of the Gini impurity\<close>

lemma sum_sq_expand:
  fixes ys :: "rat list"
  shows "sum_list (map (\<lambda>y. (c * y - d)\<^sup>2) ys) =
         c\<^sup>2 * sum_list (map (\<lambda>y. y\<^sup>2) ys) - 2 * c * d * sum_list ys + of_nat (length ys) * d\<^sup>2"
  by (induction ys) (simp_all add: power2_eq_square algebra_simps)

lemma sum_sq_lower:
  fixes ys :: "rat list"
  assumes "ys \<noteq> []"
  shows "(sum_list ys)\<^sup>2 \<le> of_nat (length ys) * sum_list (map (\<lambda>y. y\<^sup>2) ys)"
proof -
  let ?k = "of_nat (length ys) :: rat"
  let ?N = "sum_list ys"
  let ?Q = "sum_list (map (\<lambda>y. y\<^sup>2) ys)"
  have kpos: "0 < ?k" using assms by simp
  have "0 \<le> sum_list (map (\<lambda>y. (?k * y - ?N)\<^sup>2) ys)"
    by (rule sum_list_nonneg) auto
  also have "\<dots> = ?k\<^sup>2 * ?Q - 2 * ?k * ?N * ?N + ?k * ?N\<^sup>2"
    by (rule sum_sq_expand)
  also have "\<dots> = ?k * (?k * ?Q - ?N\<^sup>2)"
    by (simp add: power2_eq_square algebra_simps)
  finally have "0 \<le> ?k * (?k * ?Q - ?N\<^sup>2)" .
  with kpos have "0 \<le> ?k * ?Q - ?N\<^sup>2"
    by (simp add: zero_le_mult_iff)
  then show ?thesis by simp
qed

lemma sum_sq_upper:
  fixes ys :: "rat list"
  assumes "\<And>y. y \<in> set ys \<Longrightarrow> 0 \<le> y"
  shows "sum_list (map (\<lambda>y. y\<^sup>2) ys) \<le> (sum_list ys)\<^sup>2"
  using assms
proof (induction ys)
  case Nil
  then show ?case by simp
next
  case (Cons a ys)
  have a: "0 \<le> a" using Cons.prems by simp
  have s: "0 \<le> sum_list ys" using Cons.prems by (intro sum_list_nonneg) simp
  have "sum_list (map (\<lambda>y. y\<^sup>2) ys) \<le> (sum_list ys)\<^sup>2"
    using Cons by simp
  moreover have "0 \<le> 2 * a * sum_list ys" using a s by simp
  ultimately show ?case
    by (simp add: power2_eq_square algebra_simps)
qed

lemma sum_list_filter_nonzero:
  fixes f :: "nat \<Rightarrow> rat"
  assumes "f 0 = 0"
  shows "sum_list (map f (filter (\<lambda>n. n \<noteq> 0) xs)) = sum_list (map f xs)"
  using assms by (induction xs) auto

lemma sum_list_label_counts: "sum_list (label_counts dic) = lenDictValues dic"
  by (simp add: label_counts_def lenDictValues_def)

lemma sum_list_div_sq:
  fixes N :: rat
  shows "sum_list (map (\<lambda>i. i\<^sup>2) (map (\<lambda>prob. rat_of_nat prob / N) xs)) =
         sum_list (map (\<lambda>n. (rat_of_nat n)\<^sup>2) xs) / N\<^sup>2"
  by (induction xs) (simp_all add: power_divide add_divide_distrib)

lemma gini_value:
  assumes "0 < lenDictValues dic"
  shows "gini dic =
     Inr (1 - sum_list (map (\<lambda>n. (rat_of_nat n)\<^sup>2) (label_counts dic))
              / (rat_of_nat (lenDictValues dic))\<^sup>2)"
proof -
  have nz: "sum_list (map (\<lambda>L. length L) (map snd dic)) \<noteq> 0"
    using assms unfolding lenDictValues_def by arith
  then have cond: "\<not> (map (\<lambda>L. length L) (map snd dic) \<noteq> [] \<and>
      sum_list (map (\<lambda>L. length L) (map snd dic)) = 0)"
    by blast
  show ?thesis
    unfolding gini_def Let_def if_not_P [OF cond] sum_list_div_sq lenDictValues_def label_counts_def
    by simp
qed

lemma card_labels_present:
  assumes "is_dict dic"
  shows "card (labels_present dic) = length (filter (\<lambda>n. n \<noteq> 0) (label_counts dic))"
proof -
  let ?xs = "filter (\<lambda>x. snd x \<noteq> []) dic"
  have "distinct (map fst ?xs)"
    using assms unfolding is_dict_def by (rule distinct_map_filter)
  then have "card (set (map fst ?xs)) = length (map fst ?xs)"
    by (rule distinct_card)
  moreover have "set (map fst ?xs) = labels_present dic"
    by (simp add: labels_present_def)
  moreover have "length ?xs = length (filter (\<lambda>n. n \<noteq> 0) (label_counts dic))"
    by (induction dic) (auto simp: label_counts_def)
  ultimately show ?thesis by simp
qed

text \<open>
  C8: for a dataset (a \<open>dict\<close>) with at least one vector, in which \<open>k\<close> distinct labels
  have at least one vector, \<open>k \<ge> 1\<close>, \<open>gini\<close> returns a value \<open>g\<close> with
  \<open>0 \<le> g \<le> 1 - 1/k\<close>, and \<open>g = 0\<close> when exactly one label is present.
\<close>

theorem gini_bounds:
  assumes dict: "is_dict dic" and ne: "0 < lenDictValues dic"
    and k: "k = card (labels_present dic)"
  shows "1 \<le> k \<and> (\<exists>g. gini dic = Inr g \<and> 0 \<le> g \<and> g \<le> 1 - 1 / rat_of_nat k \<and> (k = 1 \<longrightarrow> g = 0))"
proof -
  let ?cs = "label_counts dic"
  let ?ys = "map rat_of_nat (filter (\<lambda>n. n \<noteq> 0) ?cs)"
  let ?N = "rat_of_nat (lenDictValues dic)"
  let ?Q = "sum_list (map (\<lambda>n. (rat_of_nat n)\<^sup>2) ?cs)"
  have Npos: "0 < ?N" using ne by simp
  have klen: "k = length ?ys"
    using k card_labels_present [OF dict] by simp
  have sumys: "sum_list ?ys = ?N"
  proof -
    have "sum_list (map rat_of_nat (filter (\<lambda>n. n \<noteq> 0) ?cs)) = sum_list (map rat_of_nat ?cs)"
      by (rule sum_list_filter_nonzero) simp
    then show ?thesis
      by (simp add: sum_list_of_nat sum_list_label_counts)
  qed
  have sqys: "sum_list (map (\<lambda>y. y\<^sup>2) ?ys) = ?Q"
  proof -
    have "sum_list (map (\<lambda>n. (rat_of_nat n)\<^sup>2) (filter (\<lambda>n. n \<noteq> 0) ?cs)) = ?Q"
      by (rule sum_list_filter_nonzero) simp
    then show ?thesis by (simp add: comp_def)
  qed
  have ysne: "?ys \<noteq> []"
  proof
    assume "?ys = []"
    then have "sum_list ?ys = 0" by simp
    with sumys Npos show False by simp
  qed
  then have k1: "1 \<le> k" using klen by (simp add: Suc_le_eq)
  have kpos: "0 < rat_of_nat k" using k1 by simp
  have "sum_list (map (\<lambda>y. y\<^sup>2) ?ys) \<le> (sum_list ?ys)\<^sup>2"
    by (rule sum_sq_upper) auto
  then have upper: "?Q \<le> ?N\<^sup>2"
    unfolding sumys sqys .
  have lower: "?N\<^sup>2 \<le> rat_of_nat k * ?Q"
    using sum_sq_lower [OF ysne] sumys sqys klen by simp
  define g where "g = 1 - ?Q / ?N\<^sup>2"
  have gv: "gini dic = Inr g"
    unfolding g_def by (rule gini_value [OF ne])
  have N2: "0 < ?N\<^sup>2" using Npos by simp
  have g0: "0 \<le> g"
    unfolding g_def using upper N2 by (simp add: divide_le_eq)
  have "1 / rat_of_nat k \<le> ?Q / ?N\<^sup>2"
    using lower N2 kpos by (simp add: divide_le_eq le_divide_eq mult.commute)
  then have g1: "g \<le> 1 - 1 / rat_of_nat k"
    unfolding g_def by simp
  have "g = 0" if "k = 1"
    using g0 g1 that by simp
  with k1 gv g0 g1 show ?thesis by blast
qed

theorem gini_bounds_witness:
  "gini [(0, [[0], [1]]), (1, [[2]])] = Inr (4 / 9) \<and> (4 / 9 :: rat) \<le> 1 - 1 / 2 \<and>
   gini [(7, [[0], [1]])] = Inr 0"
proof -
  have "\<exists>g. gini [(0, [[0], [1]]), (1, [[2]])] = Inr g \<and> 0 \<le> g \<and> g \<le> 1 - 1 / rat_of_nat 2 \<and>
      ((2::nat) = 1 \<longrightarrow> g = 0)"
    using gini_bounds [of "[(0, [[0], [1]]), (1, [[2]])]" 2]
    by (simp add: is_dict_def lenDictValues_def labels_present_def)
  moreover have "\<exists>g. gini [(7, [[0], [1]])] = Inr g \<and> 0 \<le> g \<and> g \<le> 1 - 1 / rat_of_nat 1 \<and>
      ((1::nat) = 1 \<longrightarrow> g = 0)"
    using gini_bounds [of "[(7, [[0], [1]])]" 1]
    by (simp add: is_dict_def lenDictValues_def labels_present_def)
  moreover have "gini [(0, [[0], [1]]), (1, [[2]])] = Inr (4 / 9)"
    by (simp add: gini_def power2_eq_square)
  ultimately show ?thesis by auto
qed

section \<open>The two loops of \<open>generateCut\<close>\<close>

lemma getitem_valid: "valid_index v f \<Longrightarrow> \<exists>x. getitem v f = Inr x"
  by (auto simp: valid_index_def getitem_def)

lemma getitem_Inr_valid: "getitem v f = Inr x \<Longrightarrow> valid_index v f"
  by (auto simp: valid_index_def getitem_def split: if_splits)

lemma goes_right_iff: "valid_index v f \<Longrightarrow> goes_right f t v \<longleftrightarrow> \<not> goes_left f t v"
  using getitem_valid [of v f] by (auto simp: goes_left_def goes_right_def)

lemma rd_sample_one:
  "rd_sample features 1 r =
     (if features = [] then Inl ValueError
      else Inr ([features ! (r 0 mod length features)], \<lambda>i. r (Suc i)))"
  by (cases features) (simp_all add: rd_sample_def randbelow_def)

lemma dd_append_opt:
  "key \<notin> fst ` set a \<Longrightarrow> dd_append (a @ opt_entry key xs) key v = a @ opt_entry key (xs @ [v])"
  by (induction a) (auto simp: opt_entry_def)

lemma cut_inner_char:
  assumes "key \<notin> fst ` set a1" "key \<notin> fst ` set a2" "\<forall>v \<in> set l. valid_index v f"
  shows "cut_inner f t key l (a1 @ opt_entry key xs, a2 @ opt_entry key ys) =
         Inr (a1 @ opt_entry key (xs @ filter (goes_left f t) l),
              a2 @ opt_entry key (ys @ filter (goes_right f t) l))"
  using assms
proof (induction l arbitrary: xs ys)
  case Nil
  then show ?case by simp
next
  case (Cons v l)
  from Cons.prems have "valid_index v f" by simp
  then obtain x where x: "getitem v f = Inr x"
    using getitem_valid by blast
  show ?case
  proof (cases "x < t")
    case True
    then have "goes_left f t v" "\<not> goes_right f t v"
      using x by (simp_all add: goes_left_def goes_right_def)
    then show ?thesis
      using Cons.IH [of "xs @ [v]" ys] Cons.prems x True
      by (simp add: dd_append_opt)
  next
    case False
    then have "\<not> goes_left f t v" "goes_right f t v"
      using x by (simp_all add: goes_left_def goes_right_def)
    then show ?thesis
      using Cons.IH [of xs "ys @ [v]"] Cons.prems x False
      by (simp add: dd_append_opt)
  qed
qed

lemma split_by_Cons:
  "split_by P ((key, l) # items) = opt_entry key (filter P l) @ split_by P items"
  by (simp add: split_by_def opt_entry_def)

lemma keys_opt_entry: "fst ` set (a @ opt_entry key zs) \<subseteq> insert key (fst ` set a)"
  by (auto simp: opt_entry_def)

lemma cut_outer_char:
  assumes "distinct (map fst items)"
    and "fst ` set items \<inter> fst ` set a1 = {}" "fst ` set items \<inter> fst ` set a2 = {}"
    and "\<forall>v \<in> set (points_of items). valid_index v f"
  shows "cut_outer f t items (a1, a2) =
         Inr (a1 @ split_by (goes_left f t) items, a2 @ split_by (goes_right f t) items)"
  using assms
proof (induction items arbitrary: a1 a2)
  case Nil
  then show ?case by (simp add: split_by_def)
next
  case (Cons item items)
  obtain key l where item: "item = (key, l)" by (cases item)
  let ?b1 = "a1 @ opt_entry key (filter (goes_left f t) l)"
  let ?b2 = "a2 @ opt_entry key (filter (goes_right f t) l)"
  have k1: "key \<notin> fst ` set a1" and k2: "key \<notin> fst ` set a2"
    using Cons.prems item by auto
  have vl: "\<forall>v \<in> set l. valid_index v f"
    using Cons.prems item by (simp add: points_of_def)
  have inner: "cut_inner f t key l (a1, a2) = Inr (?b1, ?b2)"
    using cut_inner_char [OF k1 k2 vl, of t "[]" "[]"] by (simp add: opt_entry_def)
  have knot: "key \<notin> fst ` set items"
    using Cons.prems item by auto
  have s1: "fst ` set items \<inter> fst ` set a1 = {}" and s2: "fst ` set items \<inter> fst ` set a2 = {}"
    using Cons.prems(2,3) by auto
  have d1: "fst ` set items \<inter> fst ` set ?b1 = {}"
    using s1 knot keys_opt_entry [of a1 key "filter (goes_left f t) l"] by blast
  have d2: "fst ` set items \<inter> fst ` set ?b2 = {}"
    using s2 knot keys_opt_entry [of a2 key "filter (goes_right f t) l"] by blast
  have "cut_outer f t items (?b1, ?b2) =
      Inr (?b1 @ split_by (goes_left f t) items, ?b2 @ split_by (goes_right f t) items)"
    using Cons.prems by (intro Cons.IH d1 d2) (simp_all add: points_of_def)
  then show ?case
    using inner item by (simp add: split_by_Cons)
qed

lemma getitems_success:
  "\<forall>v \<in> set points. valid_index v f \<Longrightarrow>
   \<exists>vals. getitems points f = Inr vals \<and> length vals = length points \<and>
          (\<forall>i < length points. getitem (points ! i) f = Inr (vals ! i))"
proof (induction points)
  case Nil
  then show ?case by simp
next
  case (Cons v points)
  then obtain vals where vals: "getitems points f = Inr vals" "length vals = length points"
      "\<forall>i < length points. getitem (points ! i) f = Inr (vals ! i)"
    by auto
  from Cons.prems obtain x where x: "getitem v f = Inr x"
    using getitem_valid by (metis list.set_intros(1))
  have "\<forall>i < length (v # points). getitem ((v # points) ! i) f = Inr ((x # vals) ! i)"
    using vals(3) x by (auto simp: nth_Cons split: nat.splits)
  then show ?case
    using vals x by simp
qed

section \<open>What \<open>generateCut\<close> returns\<close>

lemma length_points_of: "length (points_of dic) = lenDictValues dic"
  by (induction dic) (simp_all add: points_of_def lenDictValues_def)

lemma getitems_Inr_valid:
  "getitems points f = Inr vals \<Longrightarrow> \<forall>v \<in> set points. valid_index v f"
proof (induction points arbitrary: vals)
  case Nil
  then show ?case by simp
next
  case (Cons v points)
  then show ?case
    by (auto split: sum.splits dest: getitem_Inr_valid)
qed

lemma generateCut_nonempty:
  assumes dict: "is_dict (data node)" and ne: "0 < lenDictValues (data node)"
    and feat: "features \<noteq> []"
    and valid: "\<forall>v \<in> set (points_of (data node)). valid_index v (features ! (r 0 mod length features))"
  shows "\<exists>t. getitem (points_of (data node) ! (r 1 mod lenDictValues (data node)))
                (features ! (r 0 mod length features)) = Inr t \<and>
     generateCut node features r =
       Inr (split_by (goes_left (features ! (r 0 mod length features)) t) (data node),
            split_by (goes_right (features ! (r 0 mod length features)) t) (data node),
            [features ! (r 0 mod length features)], t, \<lambda>i. r (Suc (Suc i)))"
proof -
  let ?f = "features ! (r 0 mod length features)"
  let ?pts = "points_of (data node)"
  let ?j = "r 1 mod lenDictValues (data node)"
  from getitems_success [OF valid] obtain vals where
    vals: "getitems ?pts ?f = Inr vals" "length vals = length ?pts"
      "\<forall>i < length ?pts. getitem (?pts ! i) ?f = Inr (vals ! i)"
    by blast
  have len: "length vals = lenDictValues (data node)"
    using vals(2) by (simp add: length_points_of)
  have j: "?j < length ?pts"
    using ne by (simp add: length_points_of)
  have t: "getitem (?pts ! ?j) ?f = Inr (vals ! ?j)"
    using vals(3) j by blast
  have vne: "vals \<noteq> []"
    using len ne by auto
  have choice: "rd_choice vals (\<lambda>i. r (Suc i)) = Inr (vals ! ?j, \<lambda>i. r (Suc (Suc i)))"
    using vne len by (simp add: rd_choice_def randbelow_def)
  have dne: "length (data node) \<noteq> 0"
    using ne by (auto simp: lenDictValues_def)
  have outer: "cut_outer ?f (vals ! ?j) (data node) ([], []) =
      Inr ([] @ split_by (goes_left ?f (vals ! ?j)) (data node),
           [] @ split_by (goes_right ?f (vals ! ?j)) (data node))"
    using dict valid by (intro cut_outer_char) (simp_all add: is_dict_def)
  have "generateCut node features r =
       Inr (split_by (goes_left ?f (vals ! ?j)) (data node),
            split_by (goes_right ?f (vals ! ?j)) (data node), [?f], vals ! ?j, \<lambda>i. r (Suc (Suc i)))"
    using feat dne vals(1) choice outer
    by (simp add: generateCut_def rd_sample_one points_of_def Let_def)
  with t show ?thesis by blast
qed

lemma generateCut_empty:
  assumes "data node = []" and "features \<noteq> []"
  shows "generateCut node features r =
     Inr ([], [], [features ! (r 0 mod length features)], 0, \<lambda>i. r (Suc i))"
  using assms by (simp add: generateCut_def rd_sample_one)

lemma generateCut_cases:
  assumes "generateCut node features r = Inr (c1, c2, rf, t, r')"
  shows "features \<noteq> [] \<and> rf = [features ! (r 0 mod length features)] \<and>
     (data node = [] \<and> c1 = [] \<and> c2 = [] \<or>
      0 < lenDictValues (data node) \<and> (\<forall>v \<in> set (points_of (data node)). valid_index v (hd rf)) \<and>
      cut_outer (hd rf) t (data node) ([], []) = Inr (c1, c2))"
proof -
  have feat: "features \<noteq> []"
    using assms by (auto simp: generateCut_def rd_sample_one split: if_splits)
  show ?thesis
  proof (cases "data node = []")
    case True
    then show ?thesis
      using assms feat by (simp add: generateCut_empty)
  next
    case False
    let ?f = "features ! (r 0 mod length features)"
    from False assms feat obtain vals where
      vals: "getitems (points_of (data node)) ?f = Inr vals"
      by (auto simp: generateCut_def rd_sample_one points_of_def Let_def split: sum.splits)
    with False assms feat have rest: "vals \<noteq> []" "rf = [?f]"
       "cut_outer ?f t (data node) ([], []) = Inr (c1, c2)"
      by (auto simp: generateCut_def rd_sample_one points_of_def Let_def rd_choice_def
          split: sum.splits if_splits prod.splits)
    have "length vals = length (points_of (data node))"
      using getitems_success [OF getitems_Inr_valid [OF vals]] vals by auto
    with rest(1) have "0 < lenDictValues (data node)"
      by (cases vals) (simp_all add: length_points_of)
    with rest getitems_Inr_valid [OF vals] feat show ?thesis by simp
  qed
qed

section \<open>Invariants of a cut\<close>

lemma lenDictValues_Cons: "lenDictValues ((k, l) # c) = length l + lenDictValues c"
  by (simp add: lenDictValues_def)

lemma lenDictValues_Nil: "lenDictValues [] = 0"
  by (simp add: lenDictValues_def)

lemma keys_dd_append: "set (map fst (dd_append c key v)) = insert key (set (map fst c))"
  by (induction c key v rule: dd_append.induct) (simp_all add: insert_commute)

lemma distinct_dd_append: "distinct (map fst c) \<Longrightarrow> distinct (map fst (dd_append c key v))"
proof (induction c key v rule: dd_append.induct)
  case (1 key v)
  then show ?case by simp
next
  case (2 k l c key v)
  have "k \<notin> set (map fst (dd_append c key v))" if "k \<noteq> key"
    using 2(2) that unfolding keys_dd_append by simp
  with 2 show ?case by auto
qed

lemma nonempty_dd_append: "[] \<notin> set (map snd c) \<Longrightarrow> [] \<notin> set (map snd (dd_append c key v))"
  by (induction c key v rule: dd_append.induct) simp_all

lemma dd_append_ok: "dd_ok c \<Longrightarrow> dd_ok (dd_append c key v)"
  unfolding dd_ok_def is_dict_def
  using distinct_dd_append nonempty_dd_append by blast

lemma len_dd_append: "lenDictValues (dd_append c key v) = Suc (lenDictValues c)"
  by (induction c) (auto simp: lenDictValues_def)

lemma cut_inner_inv:
  "cut_inner f t key l (c1, c2) = Inr (c1', c2') \<Longrightarrow> dd_ok c1 \<Longrightarrow> dd_ok c2 \<Longrightarrow>
   dd_ok c1' \<and> dd_ok c2' \<and>
   lenDictValues c1' + lenDictValues c2' = lenDictValues c1 + lenDictValues c2 + length l"
proof (induction l arbitrary: c1 c2)
  case Nil
  then show ?case by simp
next
  case (Cons v l)
  from Cons.prems(1) obtain x where x: "getitem v f = Inr x"
    by (auto split: sum.splits)
  show ?case
  proof (cases "x < t")
    case True
    with Cons.prems x have "cut_inner f t key l (dd_append c1 key v, c2) = Inr (c1', c2')"
      by simp
    from Cons.IH [OF this dd_append_ok [OF Cons.prems(2)] Cons.prems(3)]
    show ?thesis by (simp add: len_dd_append)
  next
    case False
    with Cons.prems x have "cut_inner f t key l (c1, dd_append c2 key v) = Inr (c1', c2')"
      by simp
    from Cons.IH [OF this Cons.prems(2) dd_append_ok [OF Cons.prems(3)]]
    show ?thesis by (simp add: len_dd_append)
  qed
qed

lemma cut_outer_inv:
  "cut_outer f t items (c1, c2) = Inr (c1', c2') \<Longrightarrow> dd_ok c1 \<Longrightarrow> dd_ok c2 \<Longrightarrow>
   dd_ok c1' \<and> dd_ok c2' \<and>
   lenDictValues c1' + lenDictValues c2' = lenDictValues c1 + lenDictValues c2 + lenDictValues items"
proof (induction items arbitrary: c1 c2)
  case Nil
  then show ?case by (simp add: lenDictValues_Nil)
next
  case (Cons item items)
  obtain key l where item: "item = (key, l)" by (cases item)
  from Cons.prems(1) item obtain b1 b2 where
    inner: "cut_inner f t key l (c1, c2) = Inr (b1, b2)"
    and outer: "cut_outer f t items (b1, b2) = Inr (c1', c2')"
    by (auto split: sum.splits)
  from cut_inner_inv [OF inner Cons.prems(2,3)]
  have b: "dd_ok b1" "dd_ok b2"
    "lenDictValues b1 + lenDictValues b2 = lenDictValues c1 + lenDictValues c2 + length l"
    by simp_all
  from Cons.IH [OF outer b(1,2)] b(3) item show ?case
    by (simp add: lenDictValues_Cons)
qed

lemma dd_ok_Nil: "dd_ok []"
  by (simp add: dd_ok_def is_dict_def)

lemma dd_ok_empty_iff: "dd_ok c \<Longrightarrow> lenDictValues c = 0 \<longleftrightarrow> c = []"
  by (cases c) (auto simp: dd_ok_def lenDictValues_def)

lemma generateCut_inv:
  assumes "generateCut node features r = Inr (c1, c2, rf, t, r')"
  shows "dd_ok c1 \<and> dd_ok c2 \<and> lenDictValues c1 + lenDictValues c2 = lenDictValues (data node)"
proof -
  from generateCut_cases [OF assms]
  consider "data node = []" "c1 = []" "c2 = []"
    | "cut_outer (hd rf) t (data node) ([], []) = Inr (c1, c2)"
    by blast
  then show ?thesis
  proof cases
    case 1
    then show ?thesis by (simp add: dd_ok_Nil lenDictValues_Nil)
  next
    case 2
    from cut_outer_inv [OF 2 dd_ok_Nil dd_ok_Nil] show ?thesis
      by (simp add: lenDictValues_Nil)
  qed
qed

lemma label_counts_clean: "label_counts (clean dic) = filter (\<lambda>n. n \<noteq> 0) (label_counts dic)"
  by (induction dic) (auto simp: clean_def label_counts_def)

lemma len_clean: "lenDictValues (clean dic) = lenDictValues dic"
  by (induction dic) (auto simp: clean_def lenDictValues_def)

lemma split_by_empty_other:
  assumes "\<forall>v \<in> set (points_of dic). P v \<longleftrightarrow> \<not> Q v" and "split_by P dic = []"
  shows "split_by Q dic = clean dic"
  using assms
proof (induction dic)
  case Nil
  then show ?case by (simp add: split_by_def clean_def)
next
  case (Cons item dic)
  obtain k l where item: "item = (k, l)" by (cases item)
  from Cons.prems(2) item have e: "filter P l = []" and rest: "split_by P dic = []"
    by (auto simp: split_by_def split: if_splits)
  from Cons.prems(1) item have pq: "\<forall>v \<in> set l. P v \<longleftrightarrow> \<not> Q v"
    and pq': "\<forall>v \<in> set (points_of dic). P v \<longleftrightarrow> \<not> Q v"
    by (auto simp: points_of_def)
  from e pq have "filter Q l = l"
    by (auto simp: filter_empty_conv filter_id_conv)
  with Cons.IH [OF pq' rest] item show ?case
    by (simp add: split_by_def clean_def)
qed

lemma gini_Nil: "gini [] = Inr 1"
  by (simp add: gini_def)

section \<open>The cut made by \<open>generateCut\<close>\<close>

lemma points_of_no_vector: "lenDictValues dic = 0 \<Longrightarrow> concat (map snd dic) = []"
  by (induction dic) (auto simp: lenDictValues_def)

lemma generateCut_no_vector:
  assumes "data node \<noteq> []" and "lenDictValues (data node) = 0" and "features \<noteq> []"
  shows "generateCut node features r = Inl IndexError"
  using assms
  by (simp add: generateCut_def rd_sample_one points_of_no_vector rd_choice_def)

text \<open>
  C4, amended: for a dataset (a \<open>dict\<close>) with at least one vector and a non-empty list of
  features that index every vector, \<open>generateCut\<close> returns one feature \<open>f\<close> of the list and,
  as threshold, the value \<open>t\<close> of that feature in one vector \<open>v\<close> of the dataset; the left
  dataset holds, label by label and in order, the vectors whose value at \<open>f\<close> is \<open>< t\<close>,
  the right dataset those whose value is \<open>\<ge> t\<close>, so \<open>v\<close> itself goes right, and a label
  appears on a side only with its own vectors.  For a dataset with no label (and a non-empty
  list of features) it returns two empty datasets and the threshold \<open>0\<close>.  For a dataset
  that has labels but not a single vector it returns nothing: the guard \<open>len(values) != 0\<close>
  counts the labels, the list of values to choose from is empty, and \<open>rd.choice\<close> raises
  \<open>IndexError\<close>.
\<close>

theorem generateCut_splits:
  "(is_dict (data node) \<and> 0 < lenDictValues (data node) \<and> features \<noteq> [] \<and>
    (\<forall>v \<in> set (points_of (data node)). \<forall>f \<in> set features. valid_index v f) \<longrightarrow>
    (\<exists>f v t r'. f \<in> set features \<and> v \<in> set (points_of (data node)) \<and>
       getitem v f = Inr t \<and> goes_right f t v \<and> \<not> goes_left f t v \<and>
       generateCut node features r =
         Inr (split_by (goes_left f t) (data node), split_by (goes_right f t) (data node),
              [f], t, r'))) \<and>
   (data node = [] \<and> features \<noteq> [] \<longrightarrow>
    (\<exists>f r'. f \<in> set features \<and> generateCut node features r = Inr ([], [], [f], 0, r'))) \<and>
   (data node \<noteq> [] \<and> lenDictValues (data node) = 0 \<and> features \<noteq> [] \<longrightarrow>
    generateCut node features r = Inl IndexError)"
proof (intro conjI impI)
  assume h: "is_dict (data node) \<and> 0 < lenDictValues (data node) \<and> features \<noteq> [] \<and>
    (\<forall>v \<in> set (points_of (data node)). \<forall>f \<in> set features. valid_index v f)"
  let ?f = "features ! (r 0 mod length features)"
  let ?v = "points_of (data node) ! (r 1 mod lenDictValues (data node))"
  from h have fin: "?f \<in> set features" by simp
  from h have vin: "?v \<in> set (points_of (data node))"
    by (simp add: length_points_of)
  from h fin have "\<forall>v \<in> set (points_of (data node)). valid_index v ?f"
    by blast
  moreover from h have "is_dict (data node)" "0 < lenDictValues (data node)" "features \<noteq> []"
    by simp_all
  ultimately obtain t where
    t: "getitem ?v ?f = Inr t"
    and cut: "generateCut node features r =
       Inr (split_by (goes_left ?f t) (data node), split_by (goes_right ?f t) (data node),
            [?f], t, \<lambda>i. r (Suc (Suc i)))"
    using generateCut_nonempty [of node features r] by blast
  from t have "goes_right ?f t ?v" "\<not> goes_left ?f t ?v"
    by (simp_all add: goes_right_def goes_left_def)
  with fin vin t cut show "\<exists>f v t r'. f \<in> set features \<and> v \<in> set (points_of (data node)) \<and>
       getitem v f = Inr t \<and> goes_right f t v \<and> \<not> goes_left f t v \<and>
       generateCut node features r =
         Inr (split_by (goes_left f t) (data node), split_by (goes_right f t) (data node),
              [f], t, r')"
    by blast
next
  assume h: "data node = [] \<and> features \<noteq> []"
  then have "features ! (r 0 mod length features) \<in> set features" by simp
  with generateCut_empty [of node features r] h
  show "\<exists>f r'. f \<in> set features \<and> generateCut node features r = Inr ([], [], [f], 0, r')"
    by blast
next
  assume "data node \<noteq> [] \<and> lenDictValues (data node) = 0 \<and> features \<noteq> []"
  then show "generateCut node features r = Inl IndexError"
    by (simp add: generateCut_no_vector)
qed

theorem generateCut_splits_witness:
  "(\<exists>f v t r'. f \<in> set [0] \<and> v \<in> set (points_of (data (Node_init [(0, [[0]]), (1, [[1]])]))) \<and>
       getitem v f = Inr t \<and> goes_right f t v \<and> \<not> goes_left f t v \<and>
       generateCut (Node_init [(0, [[0]]), (1, [[1]])]) [0] (\<lambda>_. 1) =
         Inr (split_by (goes_left f t) (data (Node_init [(0, [[0]]), (1, [[1]])])),
              split_by (goes_right f t) (data (Node_init [(0, [[0]]), (1, [[1]])])), [f], t, r')) \<and>
   (\<exists>f r'. f \<in> set [0] \<and> generateCut (Node_init []) [0] (\<lambda>_. 0) = Inr ([], [], [f], 0, r')) \<and>
   generateCut (Node_init [(0, []), (1, [])]) [0] (\<lambda>_. 0) = Inl IndexError \<and>
   generateCut (Node_init [(0, [[0]]), (1, [[1]])]) [0] (\<lambda>_. 1) =
     Inr ([(0, [[0]])], [(1, [[1]])], [0], 1, \<lambda>_. 1)"
proof -
  let ?N = "Node_init [(0, [[0]]), (1, [[1]])]"
  let ?M = "Node_init [(0, []), (1, [])]"
  have A: "is_dict (data ?N) \<and> 0 < lenDictValues (data ?N) \<and> [0::int] \<noteq> [] \<and>
      (\<forall>v \<in> set (points_of (data ?N)). \<forall>f \<in> set [0]. valid_index v f)"
    by (simp add: Node_init_def is_dict_def lenDictValues_def points_of_def valid_index_def)
  have B: "data (Node_init []) = [] \<and> [0::int] \<noteq> []"
    by (simp add: Node_init_def)
  have C: "data ?M \<noteq> [] \<and> lenDictValues (data ?M) = 0 \<and> [0::int] \<noteq> []"
    by (simp add: Node_init_def lenDictValues_def)
  have E: "generateCut ?N [0] (\<lambda>_. 1) = Inr ([(0, [[0]])], [(1, [[1]])], [0], 1, \<lambda>_. 1)"
    by (simp add: generateCut_def rd_sample_one Node_init_def getitem_def rd_choice_def
        randbelow_def)
  from generateCut_splits [of ?N "[0]" "\<lambda>_. 1", THEN conjunct1, THEN mp, OF A]
    generateCut_splits [of "Node_init []" "[0]" "\<lambda>_. 0", THEN conjunct2, THEN conjunct1,
      THEN mp, OF B]
    generateCut_splits [of ?M "[0]" "\<lambda>_. 0", THEN conjunct2, THEN conjunct2, THEN mp, OF C] E
  show ?thesis by (intro conjI)
qed

text \<open>
  The case that C4 as first stated leaves out or gets wrong: \<open>{0: []}\<close> is a dataset that is
  not the empty \<open>dict\<close> and has no vector.  \<open>generateCut\<close> neither cuts it nor returns two
  empty datasets and the threshold 0: it raises \<open>IndexError\<close>.
\<close>

theorem generateCut_no_vector_counterexample:
  "is_dict [(0, [])] \<and> [(0, [])] \<noteq> ([] :: dataset) \<and> lenDictValues [(0, [])] = 0 \<and>
   generateCut (Node_init [(0, [])]) [0] (\<lambda>_. 0) = Inl IndexError \<and>
   generateCut (Node_init [(0, [])]) [0] (\<lambda>_. 0) \<noteq> Inr ([], [], [0], 0, \<lambda>_. 0)"
  by (simp add: is_dict_def lenDictValues_def generateCut_def rd_sample_one Node_init_def
      getitems.simps rd_choice_def)

section \<open>Machine arithmetic: the exact case, and the gain of a cut with an empty side\<close>

lemma gini_fl_exact: "gini_fl exact_arith dic = gini dic"
  by (simp add: gini_fl_def gini_def exact_arith_def Let_def)

lemma infoGain_fl_exact: "infoGain_fl exact_arith c c1 c2 = infoGain c c1 c2"
  unfolding infoGain_fl_def infoGain_def gini_fl_exact
  by (simp add: exact_arith_def Let_def split: sum.splits)

lemma units_exact_exact_arith: "units_exact exact_arith"
  by (simp add: units_exact_def exact_arith_def)

lemma gini_fl_Nil: "gini_fl ar [] = Inr 1"
  by (simp add: gini_fl_def)

lemma gini_fl_value:
  assumes "0 < lenDictValues dic"
  shows "gini_fl ar dic =
     Inr (fsub ar 1 (fsum ar (map (\<lambda>n. fpow2 ar (int_div ar n (lenDictValues dic)))
                                (label_counts dic))))"
proof -
  have nz: "sum_list (map (\<lambda>L. length L) (map snd dic)) \<noteq> 0"
    using assms unfolding lenDictValues_def by arith
  then have cond: "\<not> (map (\<lambda>L. length L) (map snd dic) \<noteq> [] \<and>
      sum_list (map (\<lambda>L. length L) (map snd dic)) = 0)"
    by blast
  from nz have ne: "map (\<lambda>L. length L) (map snd dic) \<noteq> []"
    by auto
  show ?thesis
    unfolding gini_fl_def Let_def if_not_P [OF cond] if_not_P [OF ne] lenDictValues_def
      label_counts_def
    by (simp add: comp_def)
qed

lemma fsum_filter_nonzero:
  fixes f :: "nat \<Rightarrow> rat"
  assumes z: "\<forall>xs ys. fsum ar (xs @ 0 # ys) = fsum ar (xs @ ys)" and f0: "f 0 = 0"
  shows "fsum ar (pre @ map f (filter (\<lambda>n. n \<noteq> 0) cs)) = fsum ar (pre @ map f cs)"
proof (induction cs arbitrary: pre)
  case Nil
  show ?case by simp
next
  case (Cons c cs)
  show ?case
  proof (cases "c = 0")
    case True
    have "fsum ar (pre @ map f (c # cs)) = fsum ar (pre @ 0 # map f cs)"
      using True f0 by simp
    also have "\<dots> = fsum ar (pre @ map f cs)"
      using z by blast
    also have "\<dots> = fsum ar (pre @ map f (filter (\<lambda>n. n \<noteq> 0) cs))"
      using Cons.IH by simp
    finally show ?thesis using True by simp
  next
    case False
    from Cons.IH [of "pre @ [f c]"] False show ?thesis by simp
  qed
qed

lemma gini_fl_clean:
  assumes "units_exact ar" and "0 < lenDictValues dic"
  shows "gini_fl ar (clean dic) = gini_fl ar dic"
proof -
  let ?f = "\<lambda>n. fpow2 ar (int_div ar n (lenDictValues dic))"
  from assms have f0: "?f 0 = 0"
    by (simp add: units_exact_def)
  from assms(1) have z: "\<forall>xs ys. fsum ar (xs @ 0 # ys) = fsum ar (xs @ ys)"
    by (simp add: units_exact_def)
  from fsum_filter_nonzero [of ar ?f "[]", OF z f0]
  have "fsum ar (map ?f (filter (\<lambda>n. n \<noteq> 0) (label_counts dic))) =
        fsum ar (map ?f (label_counts dic))"
    by simp
  then show ?thesis
    using assms(2) by (simp add: gini_fl_value len_clean label_counts_clean)
qed

lemma infoGain_fl_nonempty: "infoGain_fl ar c c1 c2 = Inr g \<Longrightarrow> 0 < lenDictValues c"
  by (auto simp: infoGain_fl_def split: if_splits)

lemma infoGain_fl_degenerate:
  assumes ar: "units_exact ar"
    and dict: "is_dict (data node)"
    and cut: "generateCut node features r = Inr (c1, c2, rf, t, r')"
    and deg: "length c1 = 0 \<or> length c2 = 0"
    and gain: "infoGain_fl ar (data node) c1 c2 = Inr g"
  shows "g = 0"
proof -
  let ?d = "data node"
  let ?N = "lenDictValues ?d"
  from gain have ne: "0 < ?N" by (rule infoGain_fl_nonempty)
  then have "?d \<noteq> []" by (auto simp: lenDictValues_def)
  with generateCut_cases [OF cut]
  have valid: "\<forall>v \<in> set (points_of ?d). valid_index v (hd rf)"
    and outer: "cut_outer (hd rf) t ?d ([], []) = Inr (c1, c2)"
    by auto
  have "cut_outer (hd rf) t ?d ([], []) =
      Inr ([] @ split_by (goes_left (hd rf) t) ?d, [] @ split_by (goes_right (hd rf) t) ?d)"
    using dict valid by (intro cut_outer_char) (simp_all add: is_dict_def)
  with outer have c1: "c1 = split_by (goes_left (hd rf) t) ?d"
    and c2: "c2 = split_by (goes_right (hd rf) t) ?d"
    by simp_all
  obtain gd where gd: "gini_fl ar ?d = Inr gd"
    using gini_fl_value [OF ne] by blast
  from ar ne have d0: "int_div ar 0 ?N = 0" and d1: "int_div ar ?N ?N = 1"
    by (simp_all add: units_exact_def)
  from ar have m01: "fmul ar 0 1 = 0" and m1: "fmul ar 1 gd = gd"
    and s10: "fsub ar 1 0 = 1" and s11: "fsub ar 1 1 = 0" and sgg: "fsub ar gd gd = 0"
    and a0: "fadd ar 0 gd = gd" and a1: "fadd ar gd 0 = gd"
    by (simp_all add: units_exact_def)
  from deg show ?thesis
  proof
    assume "length c1 = 0"
    then have e: "c1 = []" by simp
    have "\<forall>v \<in> set (points_of ?d). goes_left (hd rf) t v \<longleftrightarrow> \<not> goes_right (hd rf) t v"
      using valid goes_right_iff by blast
    from split_by_empty_other [OF this] e c1 c2 have "c2 = clean ?d" by simp
    then have "gini_fl ar c2 = Inr gd"
      using gini_fl_clean [OF ar ne] gd by simp
    with gain gd e ne show ?thesis
      by (simp add: infoGain_fl_def gini_fl_Nil lenDictValues_Nil d0 m01 s10 m1 a0 sgg)
  next
    assume "length c2 = 0"
    then have e: "c2 = []" by simp
    have "\<forall>v \<in> set (points_of ?d). goes_right (hd rf) t v \<longleftrightarrow> \<not> goes_left (hd rf) t v"
      using valid goes_right_iff by blast
    from split_by_empty_other [OF this] e c1 c2 have c: "c1 = clean ?d" by simp
    then have "gini_fl ar c1 = Inr gd"
      using gini_fl_clean [OF ar ne] gd by simp
    with gain gd e ne c show ?thesis
      by (simp add: infoGain_fl_def gini_fl_Nil len_clean d1 m1 s11 m01 a1 sgg)
  qed
qed

section \<open>The result of \<open>bestCut\<close>\<close>

lemma bestCut_loop_candidate:
  "bestCut_loop ar node features n best r = Inr (best', r') \<Longrightarrow>
   is_candidate ar node features best \<Longrightarrow> is_candidate ar node features best'"
proof (induction n arbitrary: best r)
  case 0
  then show ?case by simp
next
  case (Suc n)
  from Suc.prems(1) obtain c1 c2 rf t r1 where
    cut: "generateCut node features r = Inr (c1, c2, rf, t, r1)"
    by (auto split: sum.splits)
  show ?case
  proof (cases "length c1 = 0 \<or> length c2 = 0")
    case True
    with Suc.prems(1) cut have "bestCut_loop ar node features n best r1 = Inr (best', r')"
      by simp
    from Suc.IH [OF this Suc.prems(2)] show ?thesis .
  next
    case False
    with Suc.prems(1) cut obtain info where info: "infoGain_fl ar (data node) c1 c2 = Inr info"
      by (auto split: sum.splits)
    have cand: "is_candidate ar node features (info, c1, c2, rf, t)"
      using cut info by (auto simp: is_candidate_def)
    show ?thesis
    proof (cases "info > fst best")
      case True
      with Suc.prems(1) cut info False
      have "bestCut_loop ar node features n (info, c1, c2, rf, t) r1 = Inr (best', r')"
        by simp
      from Suc.IH [OF this cand] show ?thesis .
    next
      case gt: False
      with Suc.prems(1) cut info False
      have "bestCut_loop ar node features n best r1 = Inr (best', r')"
        by simp
      from Suc.IH [OF this Suc.prems(2)] show ?thesis .
    qed
  qed
qed

lemma bestCut_candidate:
  assumes "bestCut ar node nb_cut features r = Inr (gain, c1, c2, q, r')"
  shows "\<exists>rf t. is_candidate ar node features (gain, c1, c2, rf, t) \<and> q = (hd rf, t)"
proof -
  from assms obtain b1 b2 bf bt r1 where
    cut: "generateCut node features r = Inr (b1, b2, bf, bt, r1)"
    by (auto simp: bestCut_def split: sum.splits)
  with assms obtain binfo where binfo: "infoGain_fl ar (data node) b1 b2 = Inr binfo"
    by (auto simp: bestCut_def split: sum.splits)
  with assms cut obtain rf t where
    loop: "bestCut_loop ar node features (nat (nb_cut - 1)) (binfo, b1, b2, bf, bt) r1 =
       Inr ((gain, c1, c2, rf, t), r')" and q: "q = (hd rf, t)"
    by (auto simp: bestCut_def split: sum.splits)
  have "is_candidate ar node features (binfo, b1, b2, bf, bt)"
    using cut binfo by (auto simp: is_candidate_def)
  from bestCut_loop_candidate [OF loop this] q show ?thesis by blast
qed

lemma candidate_sides:
  assumes "is_candidate ar node features (gain, c1, c2, rf, t)"
  shows "dd_ok c1 \<and> dd_ok c2 \<and> lenDictValues c1 + lenDictValues c2 = lenDictValues (data node)"
    and "units_exact ar \<Longrightarrow> is_dict (data node) \<Longrightarrow> gain \<noteq> 0 \<Longrightarrow>
         0 < lenDictValues c1 \<and> 0 < lenDictValues c2"
proof -
  from assms obtain r r' where
    cut: "generateCut node features r = Inr (c1, c2, rf, t, r')"
    and gain: "infoGain_fl ar (data node) c1 c2 = Inr gain"
    by (auto simp: is_candidate_def)
  from generateCut_inv [OF cut]
  show inv: "dd_ok c1 \<and> dd_ok c2 \<and> lenDictValues c1 + lenDictValues c2 = lenDictValues (data node)" .
  assume ar: "units_exact ar" and dict: "is_dict (data node)" and nz: "gain \<noteq> 0"
  have "\<not> (length c1 = 0 \<or> length c2 = 0)"
    using infoGain_fl_degenerate [OF ar dict cut _ gain] nz by blast
  then have "c1 \<noteq> []" "c2 \<noteq> []" by simp_all
  with inv show "0 < lenDictValues c1 \<and> 0 < lenDictValues c2"
    using dd_ok_empty_iff [of c1] dd_ok_empty_iff [of c2] by auto
qed

lemma bestCut_nonempty:
  assumes "bestCut ar node nb_cut features r = Inr (gain, c1, c2, q, r')"
  shows "0 < lenDictValues (data node)"
proof -
  from bestCut_candidate [OF assms] obtain rf t where
    "infoGain_fl ar (data node) c1 c2 = Inr gain"
    by (auto simp: is_candidate_def)
  then show ?thesis by (rule infoGain_fl_nonempty)
qed

section \<open>The shape of the tree built by \<open>decisionTree\<close>\<close>

lemma decisionTree_cases:
  assumes "decisionTree fuel ar node nb fs md r = Some (Inr (tree, r'))"
  obtains (leaf) fuel' gain c1 c2 q g where
      "fuel = Suc fuel'"
      "bestCut ar node nb fs r = Inr (gain, c1, c2, q, r')" "gini_fl ar (data node) = Inr g"
      "g = 0 \<or> gain = 0 \<or> int (depth node) = md" "tree = node"
  | (split) fuel' gain c1 c2 q r1 g left r2 right where
      "fuel = Suc fuel'"
      "bestCut ar node nb fs r = Inr (gain, c1, c2, q, r1)" "gini_fl ar (data node) = Inr g"
      "g \<noteq> 0" "gain \<noteq> 0" "int (depth node) \<noteq> md"
      "decisionTree fuel' ar (Node_init c1) nb fs (md - 1) r1 = Some (Inr (left, r2))"
      "decisionTree fuel' ar (Node_init c2) nb fs (md - 1) r2 = Some (Inr (right, r'))"
      "tree = partition_node node left right q"
proof -
  from assms obtain fuel' where fuel: "fuel = Suc fuel'"
    by (cases fuel) simp_all
  note eq = assms [unfolded fuel decisionTree.simps]
  from eq obtain gain c1 c2 q r1 where
    bc: "bestCut ar node nb fs r = Inr (gain, c1, c2, q, r1)"
    by (auto split: sum.splits)
  with eq obtain g where g: "gini_fl ar (data node) = Inr g"
    by (auto split: sum.splits)
  show thesis
  proof (cases "g = 0 \<or> gain = 0 \<or> int (depth node) = md")
    case True
    with eq bc g have "tree = node" "r' = r1"
      by simp_all
    with bc g True fuel show thesis by (intro leaf) simp_all
  next
    case False
    with eq bc g obtain left r2 where
      l: "decisionTree fuel' ar (Node_init c1) nb fs (md - 1) r1 = Some (Inr (left, r2))"
      by (auto split: sum.splits option.splits)
    with eq bc g False obtain right where
      "decisionTree fuel' ar (Node_init c2) nb fs (md - 1) r2 = Some (Inr (right, r'))"
      "tree = partition_node node left right q"
      by (auto split: sum.splits option.splits)
    with bc g False l fuel show thesis by (intro split) auto
  qed
qed

lemma decisionTree_induct_tree [consumes 1, case_names leaf split]:
  assumes run: "decisionTree fuel ar node nb fs md r = Some (Inr (tree, r'))"
    and leaf: "\<And>node md r r' gain c1 c2 q g.
      bestCut ar node nb fs r = Inr (gain, c1, c2, q, r') \<Longrightarrow> gini_fl ar (data node) = Inr g \<Longrightarrow>
      g = 0 \<or> gain = 0 \<or> int (depth node) = md \<Longrightarrow> P node md node"
    and split: "\<And>node md r gain c1 c2 q r1 g left right.
      bestCut ar node nb fs r = Inr (gain, c1, c2, q, r1) \<Longrightarrow> gini_fl ar (data node) = Inr g \<Longrightarrow>
      g \<noteq> 0 \<Longrightarrow> gain \<noteq> 0 \<Longrightarrow> int (depth node) \<noteq> md \<Longrightarrow>
      \<exists>k r2. decisionTree k ar (Node_init c1) nb fs (md - 1) r1 = Some (Inr (left, r2)) \<Longrightarrow>
      \<exists>k r2 r3. decisionTree k ar (Node_init c2) nb fs (md - 1) r2 = Some (Inr (right, r3)) \<Longrightarrow>
      P (Node_init c1) (md - 1) left \<Longrightarrow> P (Node_init c2) (md - 1) right \<Longrightarrow>
      P node md (partition_node node left right q)"
  shows "P node md tree"
  using run
proof (induction fuel arbitrary: node md r tree r')
  case 0
  then show ?case by simp
next
  case (Suc fuel)
  from Suc.prems show ?case
  proof (cases rule: decisionTree_cases)
    case (leaf fuel' gain c1 c2 q g)
    then show ?thesis using assms(2) by blast
  next
    case (split fuel' gain c1 c2 q r1 g left r2 right)
    from split(1) have f: "fuel' = fuel" by simp
    have "P (Node_init c1) (md - 1) left"
      using Suc.IH split(7) f by blast
    moreover have "P (Node_init c2) (md - 1) right"
      using Suc.IH split(8) f by blast
    moreover have "\<exists>k r2. decisionTree k ar (Node_init c1) nb fs (md - 1) r1 = Some (Inr (left, r2))"
      using split(7) by blast
    moreover have "\<exists>k r2 r3. decisionTree k ar (Node_init c2) nb fs (md - 1) r2 = Some (Inr (right, r3))"
      using split(8) by blast
    ultimately show ?thesis
      using assms(3) [OF split(2-6)] split(9) by blast
  qed
qed

lemma depth_leaf: "left_son n = None \<Longrightarrow> right_son n = None \<Longrightarrow> depth n = 0"
  by (cases n) simp

lemma depth_partition_node:
  "depth (partition_node node left right q) = max (depth left) (depth right) + 1"
  by (auto simp: partition_node_def Let_def max_def)

lemma decisionTree_depth:
  assumes "decisionTree fuel ar node nb fs md r = Some (Inr (tree, r'))"
  shows "left_son node = None \<Longrightarrow> right_son node = None \<Longrightarrow> 0 \<le> md \<Longrightarrow> int (depth tree) \<le> md"
  using assms
proof (induction rule: decisionTree_induct_tree)
  case (leaf node md r r' gain c1 c2 q g)
  then show ?case by (simp add: depth_leaf)
next
  case (split node md r gain c1 c2 q r1 g left right)
  from split.prems split(5) have "0 \<le> md - 1"
    by (simp add: depth_leaf)
  with split.IH have "int (depth left) \<le> md - 1" "int (depth right) \<le> md - 1"
    by (simp_all add: Node_init_def)
  then show ?case
    by (simp add: depth_partition_node max_def)
qed

lemma decisionTree_sons:
  assumes "decisionTree fuel ar node nb fs md r = Some (Inr (tree, r'))"
  shows "all_nodes sons_match_question node \<Longrightarrow> all_nodes sons_match_question tree"
  using assms
proof (induction rule: decisionTree_induct_tree)
  case (leaf node md r r' gain c1 c2 q g)
  then show ?case by simp
next
  case (split node md r gain c1 c2 q r1 g left right)
  have "all_nodes sons_match_question (Node_init c1)" "all_nodes sons_match_question (Node_init c2)"
    by (simp_all add: Node_init_def sons_match_question_def)
  with split.IH have "all_nodes sons_match_question left" "all_nodes sons_match_question right"
    by simp_all
  moreover have "sons_match_question (partition_node node left right q)"
    by (simp add: partition_node_def sons_match_question_def)
  ultimately show ?case
    by (simp add: partition_node_def)
qed

lemma decisionTree_nonempty:
  assumes "decisionTree fuel ar node nb fs md r = Some (Inr (tree, r'))"
  shows "left_son node = None \<Longrightarrow> right_son node = None \<Longrightarrow>
     all_nodes (\<lambda>n. 0 < lenDictValues (data n)) tree"
  using assms
proof (induction rule: decisionTree_induct_tree)
  case (leaf node md r r' gain c1 c2 q g)
  from bestCut_nonempty [OF leaf(1)] leaf.prems show ?case by (cases node) simp
next
  case (split node md r gain c1 c2 q r1 g left right)
  have "all_nodes (\<lambda>n. 0 < lenDictValues (data n)) left"
    "all_nodes (\<lambda>n. 0 < lenDictValues (data n)) right"
    using split.IH by (simp_all add: Node_init_def)
  with bestCut_nonempty [OF split(1)] show ?case
    by (simp add: partition_node_def)
qed

lemma decisionTree_fuel_mono:
  "decisionTree fuel ar node nb fs md r = Some x \<Longrightarrow> fuel \<le> fuel' \<Longrightarrow>
   decisionTree fuel' ar node nb fs md r = Some x"
proof (induction fuel arbitrary: fuel' node md r x)
  case 0
  then show ?case by simp
next
  case (Suc fuel)
  from Suc.prems(2) obtain k where k: "fuel' = Suc k" and le: "fuel \<le> k"
    by (cases fuel') simp_all
  have ih: "\<And>node md r x. decisionTree fuel ar node nb fs md r = Some x \<Longrightarrow>
      decisionTree k ar node nb fs md r = Some x"
    using Suc.IH le by blast
  from Suc.prems(1) show ?case
    unfolding k decisionTree.simps
    by (auto split: sum.splits option.splits if_splits dest!: ih)
qed

section \<open>\<open>bestCut\<close> and \<open>decisionTree\<close> return on well-formed input\<close>

lemma valid_featuresD:
  "valid_features dic features \<Longrightarrow> f \<in> set features \<Longrightarrow>
   \<forall>v \<in> set (points_of dic). valid_index v f"
  by (auto simp: valid_features_def list_all_iff)

lemma gini_fl_dd_ok: "dd_ok c \<Longrightarrow> \<exists>g. gini_fl ar c = Inr g"
proof (cases "c = []")
  case True
  then show ?thesis by (simp add: gini_fl_Nil)
next
  case False
  assume "dd_ok c"
  with False have "0 < lenDictValues c"
    using dd_ok_empty_iff [of c] by auto
  then show ?thesis using gini_fl_value by blast
qed

lemma infoGain_fl_returns:
  assumes "0 < lenDictValues c" "dd_ok c1" "dd_ok c2"
  shows "\<exists>g. infoGain_fl ar c c1 c2 = Inr g"
proof -
  from gini_fl_value [OF assms(1)] obtain g where "gini_fl ar c = Inr g" by blast
  moreover from gini_fl_dd_ok [OF assms(2)] obtain g1 where "gini_fl ar c1 = Inr g1" by blast
  moreover from gini_fl_dd_ok [OF assms(3)] obtain g2 where "gini_fl ar c2 = Inr g2" by blast
  ultimately show ?thesis
    using assms(1) by (simp add: infoGain_fl_def Let_def)
qed

lemma generateCut_returns:
  assumes "is_dict (data node)" "0 < lenDictValues (data node)" "valid_features (data node) features"
  shows "\<exists>c1 c2 rf t r'. generateCut node features r = Inr (c1, c2, rf, t, r')"
proof -
  from assms(3) have feat: "features \<noteq> []"
    by (simp add: valid_features_def)
  then have "features ! (r 0 mod length features) \<in> set features" by simp
  from valid_featuresD [OF assms(3) this] generateCut_nonempty [OF assms(1,2) feat, of r]
  show ?thesis by blast
qed

lemma bestCut_loop_returns:
  assumes "is_dict (data node)" "0 < lenDictValues (data node)" "valid_features (data node) features"
  shows "\<exists>res. bestCut_loop ar node features n best r = Inr res"
proof (induction n arbitrary: best r)
  case 0
  show ?case by (rule exI, rule bestCut_loop.simps(1))
next
  case (Suc n)
  from generateCut_returns [OF assms, of r] obtain c1 c2 rf t r' where
    cut: "generateCut node features r = Inr (c1, c2, rf, t, r')"
    by blast
  from generateCut_inv [OF cut] have "dd_ok c1" "dd_ok c2" by simp_all
  from infoGain_fl_returns [OF assms(2) this] obtain g where
    g: "infoGain_fl ar (data node) c1 c2 = Inr g"
    by blast
  have "\<exists>res. bestCut_loop ar node features n best r' = Inr res"
    and "\<exists>res. bestCut_loop ar node features n (g, c1, c2, rf, t) r' = Inr res"
    by (rule Suc.IH)+
  with cut g show ?case by simp
qed

lemma bestCut_returns:
  assumes "is_dict (data node)" "0 < lenDictValues (data node)" "valid_features (data node) features"
  shows "\<exists>gain c1 c2 q r'. bestCut ar node nb_cut features r = Inr (gain, c1, c2, q, r')"
proof -
  from generateCut_returns [OF assms, of r] obtain c1 c2 rf t r' where
    cut: "generateCut node features r = Inr (c1, c2, rf, t, r')"
    by blast
  from generateCut_inv [OF cut] have "dd_ok c1" "dd_ok c2" by simp_all
  from infoGain_fl_returns [OF assms(2) this] obtain g where
    g: "infoGain_fl ar (data node) c1 c2 = Inr g"
    by blast
  from bestCut_loop_returns [OF assms, of ar "nat (nb_cut - 1)" "(g, c1, c2, rf, t)" r']
  obtain res r2 where
    "bestCut_loop ar node features (nat (nb_cut - 1)) (g, c1, c2, rf, t) r' = Inr (res, r2)"
    by fastforce
  with cut g show ?thesis
    by (cases res) (auto simp: bestCut_def)
qed

lemma points_of_split_by: "set (points_of (split_by P dic)) \<subseteq> set (points_of dic)"
  by (induction dic) (auto simp: points_of_def split_by_def)

lemma candidate_split_by:
  assumes cand: "is_candidate ar node features (gain, c1, c2, rf, t)" and dict: "is_dict (data node)"
  shows "hd rf \<in> set features \<and> (\<forall>v \<in> set (points_of (data node)). valid_index v (hd rf)) \<and>
     c1 = split_by (goes_left (hd rf) t) (data node) \<and>
     c2 = split_by (goes_right (hd rf) t) (data node)"
proof -
  let ?d = "data node"
  from cand obtain r r' where
    cut: "generateCut node features r = Inr (c1, c2, rf, t, r')"
    and gain: "infoGain_fl ar ?d c1 c2 = Inr gain"
    by (auto simp: is_candidate_def)
  from gain have ne: "0 < lenDictValues ?d" by (rule infoGain_fl_nonempty)
  then have "?d \<noteq> []" by (auto simp: lenDictValues_def)
  with generateCut_cases [OF cut]
  have feat: "features \<noteq> []" and rf: "rf = [features ! (r 0 mod length features)]"
    and valid: "\<forall>v \<in> set (points_of ?d). valid_index v (hd rf)"
    and outer: "cut_outer (hd rf) t ?d ([], []) = Inr (c1, c2)"
    by auto
  have "cut_outer (hd rf) t ?d ([], []) =
      Inr ([] @ split_by (goes_left (hd rf) t) ?d, [] @ split_by (goes_right (hd rf) t) ?d)"
    using dict valid by (intro cut_outer_char) (simp_all add: is_dict_def)
  with outer have "c1 = split_by (goes_left (hd rf) t) ?d" "c2 = split_by (goes_right (hd rf) t) ?d"
    by simp_all
  moreover from feat rf have "hd rf \<in> set features" by simp
  ultimately show ?thesis using valid by blast
qed

lemma valid_features_split_by:
  "valid_features dic features \<Longrightarrow> valid_features (split_by P dic) features"
  using points_of_split_by [of P dic] by (auto simp: valid_features_def list_all_iff)

lemma decisionTree_returns:
  assumes ar: "units_exact ar"
  shows "is_dict (data node) \<Longrightarrow> 0 < lenDictValues (data node) \<Longrightarrow>
     valid_features (data node) features \<Longrightarrow> lenDictValues (data node) < fuel \<Longrightarrow>
     \<exists>tree r'. decisionTree fuel ar node nb_cut features max_depth r = Some (Inr (tree, r'))"
proof (induction fuel arbitrary: node max_depth r)
  case 0
  then show ?case by simp
next
  case (Suc fuel)
  from bestCut_returns [OF Suc.prems(1-3), of ar nb_cut r] obtain gain c1 c2 q r1 where
    bc: "bestCut ar node nb_cut features r = Inr (gain, c1, c2, q, r1)"
    by blast
  from gini_fl_value [OF Suc.prems(2)] obtain g where g: "gini_fl ar (data node) = Inr g"
    by blast
  show ?case
  proof (cases "g = 0 \<or> gain = 0 \<or> int (depth node) = max_depth")
    case True
    with bc g show ?thesis by simp
  next
    case False
    then have nz: "gain \<noteq> 0" by simp
    from bestCut_candidate [OF bc] obtain rf t where
      cand: "is_candidate ar node features (gain, c1, c2, rf, t)"
      by blast
    note inv = candidate_sides(1) [OF cand]
    then have d: "is_dict c1" "is_dict c2"
      by (simp_all add: dd_ok_def)
    from candidate_sides(2) [OF cand ar Suc.prems(1) nz]
    have ne: "0 < lenDictValues c1" "0 < lenDictValues c2"
      by simp_all
    from candidate_split_by [OF cand Suc.prems(1)] Suc.prems(3)
    have v: "valid_features c1 features" "valid_features c2 features"
      by (simp_all add: valid_features_split_by)
    from inv ne Suc.prems(4) have small: "lenDictValues c1 < fuel" "lenDictValues c2 < fuel"
      by simp_all
    have "\<exists>tree r'. decisionTree fuel ar (Node_init c1) nb_cut features (max_depth - 1) r1 =
        Some (Inr (tree, r'))"
      using small(1) d(1) ne(1) v(1) by (intro Suc.IH) (simp_all add: Node_init_def)
    then obtain left r2 where
      l: "decisionTree fuel ar (Node_init c1) nb_cut features (max_depth - 1) r1 =
        Some (Inr (left, r2))"
      by blast
    have "\<exists>tree r'. decisionTree fuel ar (Node_init c2) nb_cut features (max_depth - 1) r2 =
        Some (Inr (tree, r'))"
      using small(2) d(2) ne(2) v(2) by (intro Suc.IH) (simp_all add: Node_init_def)
    then obtain right r3 where
      "decisionTree fuel ar (Node_init c2) nb_cut features (max_depth - 1) r2 =
        Some (Inr (right, r3))"
      by blast
    with bc g False l show ?thesis by simp
  qed
qed

text \<open>
  With \<open>max_depth \<ge> 0\<close> the calls nest at most \<open>max_depth + 1\<close> deep, whatever the arithmetic:
  a call on a new node with \<open>max_depth = 0\<close> returns or raises at once.
\<close>

lemma decisionTree_enough_fuel:
  "left_son node = None \<Longrightarrow> right_son node = None \<Longrightarrow> 0 \<le> max_depth \<Longrightarrow>
   nat max_depth < fuel \<Longrightarrow> decisionTree fuel ar node nb_cut features max_depth r \<noteq> None"
proof (induction fuel arbitrary: node max_depth r)
  case 0
  then show ?case by simp
next
  case (Suc fuel)
  have d: "depth node = 0"
    using Suc.prems(1,2) by (rule depth_leaf)
  have ih: "decisionTree fuel ar (Node_init c) nb_cut features (max_depth - 1) r0 \<noteq> None"
    if "max_depth \<noteq> 0" for c r0
  proof (rule Suc.IH)
    show "left_son (Node_init c) = None" "right_son (Node_init c) = None"
      by (simp_all add: Node_init_def)
    from that Suc.prems(3) show "0 \<le> max_depth - 1" by simp
    from that Suc.prems(3,4) show "nat (max_depth - 1) < fuel" by simp
  qed
  show ?case
  proof (cases "max_depth = 0")
    case True
    with d show ?thesis
      by (simp split: sum.splits prod.splits)
  next
    case False
    note nn = ih [OF False]
    show ?thesis
      by (simp add: nn split: sum.splits prod.splits option.splits)
  qed
qed

lemma decisionTree_returns_depth:
  assumes ar: "units_exact ar"
    and "is_dict d" "0 < lenDictValues d" "valid_features d features"
    and "0 \<le> max_depth" "nat max_depth < fuel"
  shows "\<exists>tree r'. decisionTree fuel ar (Node_init d) nb_cut features max_depth r =
     Some (Inr (tree, r'))"
proof -
  let ?F = "Suc (lenDictValues d)"
  from decisionTree_returns [OF ar, of "Node_init d" features ?F nb_cut max_depth r] assms(2-4)
  obtain tree r' where
    big: "decisionTree ?F ar (Node_init d) nb_cut features max_depth r = Some (Inr (tree, r'))"
    by (auto simp: Node_init_def)
  from decisionTree_enough_fuel [of "Node_init d" max_depth fuel ar nb_cut features r] assms(5,6)
  obtain x where
    x: "decisionTree fuel ar (Node_init d) nb_cut features max_depth r = Some x"
    by (auto simp: Node_init_def)
  from decisionTree_fuel_mono [OF big, of "max ?F fuel"]
    decisionTree_fuel_mono [OF x, of "max ?F fuel"]
  have "x = Inr (tree, r')" by simp
  with x show ?thesis by blast
qed

section \<open>A worked example\<close>

text \<open>
  Two vectors with one feature, labels \<open>0\<close> and \<open>1\<close>; the random source always answers \<open>1\<close>,
  so the root is cut at the value of the second vector.  The arithmetic is the exact one.
\<close>

lemma generateCut_example:
  "generateCut (Node_init [(0, [[0]]), (1, [[1]])]) [0] (\<lambda>_. Suc 0) =
     Inr ([(0, [[0]])], [(1, [[1]])], [0], 1, \<lambda>_. Suc 0)"
  by (simp add: generateCut_def rd_sample_one Node_init_def getitem_def rd_choice_def
      randbelow_def)

lemma bestCut_example:
  "bestCut exact_arith (Node_init [(0, [[0]]), (1, [[1]])]) 1 [0] (\<lambda>_. Suc 0) =
     Inr (1 / 2, [(0, [[0]])], [(1, [[1]])], (0, 1), \<lambda>_. Suc 0)"
proof -
  have "infoGain (data (Node_init [(0, [[0]]), (1, [[1]])])) [(0, [[0]])] [(1, [[1]])] = Inr (1 / 2)"
    by (simp add: infoGain_def gini_def lenDictValues_def Node_init_def power2_eq_square)
  then show ?thesis
    by (simp add: bestCut_def generateCut_example infoGain_fl_exact)
qed

lemma decisionTree_example_left:
  "decisionTree (Suc 0) exact_arith (Node_init [(0, [[0]])]) 1 [0] 0 (\<lambda>_. Suc 0) =
     Some (Inr (Node_init [(0, [[0]])], \<lambda>_. Suc 0))"
proof -
  have cut: "generateCut (Node_init [(0, [[0]])]) [0] (\<lambda>_. Suc 0) =
      Inr ([], [(0, [[0]])], [0], 0, \<lambda>_. Suc 0)"
    by (simp add: generateCut_def rd_sample_one Node_init_def getitem_def rd_choice_def
        randbelow_def)
  have gain: "infoGain (data (Node_init [(0, [[0]])])) [] [(0, [[0]])] = Inr 0"
    by (simp add: infoGain_def gini_def lenDictValues_def Node_init_def)
  have best: "bestCut exact_arith (Node_init [(0, [[0]])]) 1 [0] (\<lambda>_. Suc 0) =
      Inr (0, [], [(0, [[0]])], (0, 0), \<lambda>_. Suc 0)"
    by (simp add: bestCut_def cut gain infoGain_fl_exact)
  have g: "gini_fl exact_arith (data (Node_init [(0, [[0]])])) = Inr 0"
    by (simp add: gini_fl_exact gini_def Node_init_def)
  show ?thesis
    by (simp add: best g)
qed

lemma decisionTree_example_right:
  "decisionTree (Suc 0) exact_arith (Node_init [(1, [[1]])]) 1 [0] 0 (\<lambda>_. Suc 0) =
     Some (Inr (Node_init [(1, [[1]])], \<lambda>_. Suc 0))"
proof -
  have cut: "generateCut (Node_init [(1, [[1]])]) [0] (\<lambda>_. Suc 0) =
      Inr ([], [(1, [[1]])], [0], 1, \<lambda>_. Suc 0)"
    by (simp add: generateCut_def rd_sample_one Node_init_def getitem_def rd_choice_def
        randbelow_def)
  have gain: "infoGain (data (Node_init [(1, [[1]])])) [] [(1, [[1]])] = Inr 0"
    by (simp add: infoGain_def gini_def lenDictValues_def Node_init_def)
  have best: "bestCut exact_arith (Node_init [(1, [[1]])]) 1 [0] (\<lambda>_. Suc 0) =
      Inr (0, [], [(1, [[1]])], (0, 1), \<lambda>_. Suc 0)"
    by (simp add: bestCut_def cut gain infoGain_fl_exact)
  have g: "gini_fl exact_arith (data (Node_init [(1, [[1]])])) = Inr 0"
    by (simp add: gini_fl_exact gini_def Node_init_def)
  show ?thesis
    by (simp add: best g)
qed

lemma decisionTree_example:
  "decisionTree (Suc (Suc 0)) exact_arith (Node_init [(0, [[0]]), (1, [[1]])]) 1 [0] 1 (\<lambda>_. Suc 0) =
     Some (Inr (Node [(0, [[0]]), (1, [[1]])] (Some (0, 1))
            (Some (Node [(0, [[0]])] None None None))
            (Some (Node [(1, [[1]])] None None None)), \<lambda>_. Suc 0))"
proof -
  have g: "gini_fl exact_arith (data (Node_init [(0, [[0]]), (1, [[1]])])) = Inr (1 / 2)"
    by (simp add: gini_fl_exact gini_def Node_init_def power2_eq_square)
  have d: "depth (Node_init [(0, [[0]]), (1, [[1]])]) = 0"
    by (simp add: Node_init_def)
  show ?thesis
    unfolding decisionTree.simps(2) [of "Suc 0"]
    by (simp add: bestCut_example g d decisionTree_example_left decisionTree_example_right
          partition_node_def del: decisionTree.simps, simp add: Node_init_def)
qed

lemma decisionTree_example_leaf:
  "decisionTree (Suc 0) exact_arith (Node_init [(0, [[0]]), (1, [[1]])]) 1 [0] 0 (\<lambda>_. Suc 0) =
     Some (Inr (Node_init [(0, [[0]]), (1, [[1]])], \<lambda>_. Suc 0))"
proof -
  have g: "gini_fl exact_arith (data (Node_init [(0, [[0]]), (1, [[1]])])) = Inr (1 / 2)"
    by (simp add: gini_fl_exact gini_def Node_init_def power2_eq_square)
  have d: "depth (Node_init [(0, [[0]]), (1, [[1]])]) = 0"
    by (simp add: Node_init_def)
  show ?thesis
    by (simp add: bestCut_example g d)
qed

section \<open>Depth, shape and datasets of the tree built by \<open>decisionTree\<close>\<close>

text \<open>
  C5: for a root made from a dataset and \<open>max_depth \<ge> 0\<close>, the tree that \<open>decisionTree\<close>
  returns has depth at most \<open>max_depth\<close>, and with \<open>max_depth = 0\<close> it is the root itself,
  unchanged: no question and no sons.  This holds for every machine arithmetic, since the
  depth test \<open>node.depth() == max_depth\<close> compares integers.  The function does come to an
  end: \<open>max_depth + 1\<close> nested calls are enough, and on a dataset (a \<open>dict\<close>) with at least one
  vector and features that index every vector, with an arithmetic that is exact on 0 and 1,
  what it returns is a tree and not an exception.
\<close>

theorem decisionTree_depth_bound:
  assumes "0 \<le> max_depth"
  shows "(decisionTree fuel ar (Node_init d) nb_cut features max_depth r = Some (Inr (tree, r')) \<longrightarrow>
          int (depth tree) \<le> max_depth \<and> (max_depth = 0 \<longrightarrow> tree = Node d None None None)) \<and>
         (nat max_depth < fuel \<longrightarrow>
          decisionTree fuel ar (Node_init d) nb_cut features max_depth r \<noteq> None) \<and>
         (units_exact ar \<and> is_dict d \<and> 0 < lenDictValues d \<and> valid_features d features \<and>
          nat max_depth < fuel \<longrightarrow>
          (\<exists>tree r'. decisionTree fuel ar (Node_init d) nb_cut features max_depth r =
             Some (Inr (tree, r'))))"
proof (intro conjI impI)
  assume run: "decisionTree fuel ar (Node_init d) nb_cut features max_depth r = Some (Inr (tree, r'))"
  from decisionTree_depth [OF run] assms show "int (depth tree) \<le> max_depth"
    by (simp add: Node_init_def)
  assume "max_depth = 0"
  with run show "tree = Node d None None None"
    by (cases rule: decisionTree_cases) (simp_all add: Node_init_def)
next
  assume "nat max_depth < fuel"
  with assms show "decisionTree fuel ar (Node_init d) nb_cut features max_depth r \<noteq> None"
    by (intro decisionTree_enough_fuel) (simp_all add: Node_init_def)
next
  assume "units_exact ar \<and> is_dict d \<and> 0 < lenDictValues d \<and> valid_features d features \<and>
    nat max_depth < fuel"
  with assms show "\<exists>tree r'. decisionTree fuel ar (Node_init d) nb_cut features max_depth r =
     Some (Inr (tree, r'))"
    by (intro decisionTree_returns_depth) simp_all
qed

theorem decisionTree_depth_bound_witness:
  "int (depth (Node [(0, [[0]]), (1, [[1]])] (Some (0, 1))
            (Some (Node [(0, [[0]])] None None None))
            (Some (Node [(1, [[1]])] None None None)))) \<le> 1 \<and>
   decisionTree (Suc (Suc 0)) exact_arith (Node_init [(0, [[0]]), (1, [[1]])]) 1 [0] 1 (\<lambda>_. Suc 0) =
     Some (Inr (Node [(0, [[0]]), (1, [[1]])] (Some (0, 1))
            (Some (Node [(0, [[0]])] None None None))
            (Some (Node [(1, [[1]])] None None None)), \<lambda>_. Suc 0)) \<and>
   decisionTree (Suc 0) exact_arith (Node_init [(0, [[0]]), (1, [[1]])]) 1 [0] 0 (\<lambda>_. Suc 0) =
     Some (Inr (Node [(0, [[0]]), (1, [[1]])] None None None, \<lambda>_. Suc 0)) \<and>
   decisionTree (Suc (Suc 0)) exact_arith (Node_init [(0, [[0]]), (1, [[1]])]) 1 [0] 1 (\<lambda>_. Suc 0)
     \<noteq> None \<and>
   (\<exists>tree r'. decisionTree (Suc (Suc 0)) exact_arith (Node_init [(0, [[0]]), (1, [[1]])]) 1 [0] 1
       (\<lambda>_. Suc 0) = Some (Inr (tree, r')))"
proof -
  let ?D = "[(0, [[0]]), (1, [[1]])] :: dataset"
  let ?T = "Node ?D (Some (0, 1)) (Some (Node [(0, [[0]])] None None None))
            (Some (Node [(1, [[1]])] None None None))"
  have v: "units_exact exact_arith \<and> is_dict ?D \<and> 0 < lenDictValues ?D \<and> valid_features ?D [0] \<and>
      nat 1 < Suc (Suc 0)"
    by (simp add: units_exact_exact_arith is_dict_def lenDictValues_def valid_features_def
        points_of_def valid_index_def)
  have one: "(0::int) \<le> 1" and zero: "(0::int) \<le> 0"
    by simp_all
  have f: "nat 1 < Suc (Suc 0)" by simp
  from decisionTree_depth_bound [OF one, of "Suc (Suc 0)" exact_arith ?D 1 "[0]" "\<lambda>_. Suc 0" ?T
      "\<lambda>_. Suc 0", THEN conjunct1, THEN mp, OF decisionTree_example]
  have "int (depth ?T) \<le> 1" by (rule conjunct1)
  moreover from decisionTree_depth_bound [OF zero, of "Suc 0" exact_arith ?D 1 "[0]" "\<lambda>_. Suc 0"
      "Node_init ?D" "\<lambda>_. Suc 0", THEN conjunct1, THEN mp, OF decisionTree_example_leaf]
  have "Node_init ?D = Node ?D None None None" by simp
  moreover from decisionTree_depth_bound [OF one, of "Suc (Suc 0)" exact_arith ?D 1 "[0]"
      "\<lambda>_. Suc 0", THEN conjunct2, THEN conjunct1, THEN mp, OF f]
  have "decisionTree (Suc (Suc 0)) exact_arith (Node_init ?D) 1 [0] 1 (\<lambda>_. Suc 0) \<noteq> None" .
  moreover from decisionTree_depth_bound [OF one, of "Suc (Suc 0)" exact_arith ?D 1 "[0]"
      "\<lambda>_. Suc 0", THEN conjunct2, THEN conjunct2, THEN mp, OF v]
  have "\<exists>tree r'. decisionTree (Suc (Suc 0)) exact_arith (Node_init ?D) 1 [0] 1 (\<lambda>_. Suc 0) =
      Some (Inr (tree, r'))" .
  ultimately show ?thesis
    using decisionTree_example decisionTree_example_leaf by simp
qed

text \<open>
  C6: in the tree that \<open>decisionTree\<close> returns for a root made from a dataset, every node
  has a question if and only if it has both a left and a right son, and no node has exactly
  one son; so a node without a question has no sons.  This holds whatever the arithmetic and
  however deep the calls nest.
\<close>

theorem decisionTree_sons_match_question:
  "decisionTree fuel ar (Node_init d) nb_cut features max_depth r = Some (Inr (tree, r')) \<Longrightarrow>
   all_nodes sons_match_question tree"
proof -
  assume run: "decisionTree fuel ar (Node_init d) nb_cut features max_depth r = Some (Inr (tree, r'))"
  have "all_nodes sons_match_question (Node_init d)"
    by (simp add: Node_init_def sons_match_question_def)
  with decisionTree_sons [OF run] show ?thesis .
qed

theorem decisionTree_sons_match_question_witness:
  "all_nodes sons_match_question
     (Node [(0, [[0]]), (1, [[1]])] (Some (0, 1))
        (Some (Node [(0, [[0]])] None None None))
        (Some (Node [(1, [[1]])] None None None))) \<and>
   decisionTree (Suc (Suc 0)) exact_arith (Node_init [(0, [[0]]), (1, [[1]])]) 1 [0] 1 (\<lambda>_. Suc 0) =
     Some (Inr (Node [(0, [[0]]), (1, [[1]])] (Some (0, 1))
            (Some (Node [(0, [[0]])] None None None))
            (Some (Node [(1, [[1]])] None None None)), \<lambda>_. Suc 0))"
  using decisionTree_sons_match_question [OF decisionTree_example] decisionTree_example
  by (intro conjI)

text \<open>
  C10: let the arithmetic be exact on 0 and 1, as that of doubles is.  A cut of a dataset (a
  \<open>dict\<close>) with an empty side then has a computed information gain of exactly \<open>0\<close>: the side
  that is not empty holds the label counts of the parent in the same order, so its impurity
  is computed to the same double, and the rest of the formula only multiplies by 1 and 0,
  adds 0 and subtracts a number from itself.  So when \<open>bestCut\<close> returns a gain other than
  \<open>0\<close>, which is the only case in which \<open>decisionTree\<close> partitions the node, both sides have a
  vector.  In every tree that \<open>decisionTree\<close> returns, every node holds a dataset with at
  least one vector, so every leaf has a label to predict.  And on a dataset (a \<open>dict\<close>) with
  at least one vector and features that index every vector, the construction does return a
  tree, for every \<open>max_depth\<close>: no gain is computed on an empty parent, which would raise
  \<open>ZeroDivisionError\<close>.
\<close>

theorem decisionTree_datasets_nonempty:
  "(units_exact ar \<and> is_dict (data node) \<and>
    generateCut node features r0 = Inr (c1, c2, rf, t, r0') \<and>
    (length c1 = 0 \<or> length c2 = 0) \<and> infoGain_fl ar (data node) c1 c2 = Inr g \<longrightarrow> g = 0) \<and>
   (units_exact ar \<and> is_dict (data node) \<and>
    bestCut ar node nb_cut features r = Inr (gain, b1, b2, q, r1) \<and> gain \<noteq> 0 \<longrightarrow>
      0 < lenDictValues b1 \<and> 0 < lenDictValues b2) \<and>
   (decisionTree fuel ar (Node_init d) nb_cut features max_depth r = Some (Inr (tree, r')) \<longrightarrow>
      all_nodes (\<lambda>n. 0 < lenDictValues (data n)) tree) \<and>
   (units_exact ar \<and> is_dict d \<and> 0 < lenDictValues d \<and> valid_features d features \<and>
    lenDictValues d < fuel \<longrightarrow>
      (\<exists>tree r'. decisionTree fuel ar (Node_init d) nb_cut features max_depth r =
         Some (Inr (tree, r'))))"
proof (intro conjI impI)
  assume "units_exact ar \<and> is_dict (data node) \<and>
    generateCut node features r0 = Inr (c1, c2, rf, t, r0') \<and>
    (length c1 = 0 \<or> length c2 = 0) \<and> infoGain_fl ar (data node) c1 c2 = Inr g"
  then show "g = 0"
    using infoGain_fl_degenerate by blast
next
  assume h: "units_exact ar \<and> is_dict (data node) \<and>
    bestCut ar node nb_cut features r = Inr (gain, b1, b2, q, r1) \<and> gain \<noteq> 0"
  then obtain rf' t' where "is_candidate ar node features (gain, b1, b2, rf', t')"
    using bestCut_candidate by blast
  from candidate_sides(2) [OF this] h
  show "0 < lenDictValues b1" "0 < lenDictValues b2"
    by simp_all
next
  assume run: "decisionTree fuel ar (Node_init d) nb_cut features max_depth r = Some (Inr (tree, r'))"
  from decisionTree_nonempty [OF run]
  show "all_nodes (\<lambda>n. 0 < lenDictValues (data n)) tree"
    by (simp add: Node_init_def)
next
  assume h: "units_exact ar \<and> is_dict d \<and> 0 < lenDictValues d \<and> valid_features d features \<and>
    lenDictValues d < fuel"
  then have "units_exact ar" by simp
  from decisionTree_returns [OF this, of "Node_init d" features fuel nb_cut max_depth r] h
  show "\<exists>tree r'. decisionTree fuel ar (Node_init d) nb_cut features max_depth r =
     Some (Inr (tree, r'))"
    by (simp add: Node_init_def)
qed

lemma generateCut_example_degenerate:
  "generateCut (Node_init [(0, [[0]])]) [0] (\<lambda>_. Suc 0) = Inr ([], [(0, [[0]])], [0], 0, \<lambda>_. Suc 0)"
  by (simp add: generateCut_def rd_sample_one Node_init_def getitem_def rd_choice_def
      randbelow_def)

lemma infoGain_example_degenerate:
  "infoGain_fl exact_arith (data (Node_init [(0, [[0]])])) [] [(0, [[0]])] = Inr 0"
  by (simp add: infoGain_fl_exact infoGain_def gini_def lenDictValues_def Node_init_def)

theorem decisionTree_datasets_nonempty_witness:
  "infoGain_fl exact_arith (data (Node_init [(0, [[0]])])) [] [(0, [[0]])] = Inr 0 \<and>
   generateCut (Node_init [(0, [[0]])]) [0] (\<lambda>_. Suc 0) = Inr ([], [(0, [[0]])], [0], 0, \<lambda>_. Suc 0) \<and>
   bestCut exact_arith (Node_init [(0, [[0]]), (1, [[1]])]) 1 [0] (\<lambda>_. Suc 0) =
     Inr (1 / 2, [(0, [[0]])], [(1, [[1]])], (0, 1), \<lambda>_. Suc 0) \<and>
   0 < lenDictValues [(0, [[0]])] \<and> 0 < lenDictValues [(1, [[1]])] \<and>
   all_nodes (\<lambda>n. 0 < lenDictValues (data n))
     (Node [(0, [[0]]), (1, [[1]])] (Some (0, 1))
        (Some (Node [(0, [[0]])] None None None))
        (Some (Node [(1, [[1]])] None None None))) \<and>
   (\<exists>tree r'. decisionTree 3 exact_arith (Node_init [(0, [[0]]), (1, [[1]])]) 1 [0] (- 1)
       (\<lambda>_. Suc 0) = Some (Inr (tree, r')))"
proof -
  let ?D = "[(0, [[0]]), (1, [[1]])] :: dataset"
  let ?L = "[(0, [[0]])] :: dataset"
  let ?T = "Node ?D (Some (0, 1)) (Some (Node [(0, [[0]])] None None None))
            (Some (Node [(1, [[1]])] None None None))"
  note ue = units_exact_exact_arith
  have dL: "is_dict (data (Node_init ?L))" and dD: "is_dict (data (Node_init ?D))"
    by (simp_all add: is_dict_def Node_init_def)
  have half: "(1 / 2 :: rat) \<noteq> 0" by simp
  have v: "units_exact exact_arith \<and> is_dict ?D \<and> 0 < lenDictValues ?D \<and> valid_features ?D [0] \<and>
      lenDictValues ?D < 3"
    by (simp add: units_exact_exact_arith is_dict_def lenDictValues_def valid_features_def
        points_of_def valid_index_def)
  have "(0::rat) = 0"
    using decisionTree_datasets_nonempty [of exact_arith "Node_init ?L" "[0]" "\<lambda>_. Suc 0" "[]" ?L
        "[0]" 0 "\<lambda>_. Suc 0" 0]
      ue dL generateCut_example_degenerate infoGain_example_degenerate
    by simp
  moreover have "0 < lenDictValues [(0, [[0]])] \<and> 0 < lenDictValues [(1, [[1]])]"
    using decisionTree_datasets_nonempty [of exact_arith "Node_init ?D" "[0]" _ _ _ _ _ _ _ 1
        "\<lambda>_. Suc 0" "1 / 2" "[(0, [[0]])]" "[(1, [[1]])]" "(0, 1)" "\<lambda>_. Suc 0"]
      ue dD bestCut_example half
    by blast
  moreover have "all_nodes (\<lambda>n. 0 < lenDictValues (data n)) ?T"
    using decisionTree_datasets_nonempty [of exact_arith _ "[0]" _ _ _ _ _ _ _ 1 "\<lambda>_. Suc 0"
        _ _ _ _ _ "Suc (Suc 0)" ?D 1 ?T "\<lambda>_. Suc 0"]
      decisionTree_example
    by blast
  moreover have "\<exists>tree r'. decisionTree 3 exact_arith (Node_init ?D) 1 [0] (- 1) (\<lambda>_. Suc 0) =
      Some (Inr (tree, r'))"
    using decisionTree_datasets_nonempty [of exact_arith _ "[0]" _ _ _ _ _ _ _ 1 "\<lambda>_. Suc 0"
        _ _ _ _ _ 3 ?D "- 1", THEN conjunct2, THEN conjunct2, THEN conjunct2, THEN mp, OF v] .
  ultimately show ?thesis
    using generateCut_example_degenerate infoGain_example_degenerate bestCut_example
    by (intro conjI) simp_all
qed

section \<open>Classification with a built tree\<close>

lemma argmax_scan_spec:
  assumes "length pre = i" "best_i < i" "pre ! best_i = best"
    and "\<forall>j < i. pre ! j \<le> best" "\<forall>j < best_i. pre ! j < best"
  shows "argmax_scan xs i best_i best < length (pre @ xs) \<and>
     (\<forall>j < length (pre @ xs). (pre @ xs) ! j \<le> (pre @ xs) ! argmax_scan xs i best_i best) \<and>
     (\<forall>j < argmax_scan xs i best_i best. (pre @ xs) ! j < (pre @ xs) ! argmax_scan xs i best_i best)"
  using assms
proof (induction xs arbitrary: pre i best_i best)
  case Nil
  then show ?case by auto
next
  case (Cons x xs)
  show ?case
  proof (cases "x > best")
    case True
    have "argmax_scan xs (Suc i) i x < length ((pre @ [x]) @ xs) \<and>
     (\<forall>j < length ((pre @ [x]) @ xs). ((pre @ [x]) @ xs) ! j \<le> ((pre @ [x]) @ xs) ! argmax_scan xs (Suc i) i x) \<and>
     (\<forall>j < argmax_scan xs (Suc i) i x. ((pre @ [x]) @ xs) ! j < ((pre @ [x]) @ xs) ! argmax_scan xs (Suc i) i x)"
    proof (rule Cons.IH)
      show "length (pre @ [x]) = Suc i" using Cons.prems by simp
      show "i < Suc i" by simp
      show "(pre @ [x]) ! i = x" using Cons.prems by (simp add: nth_append)
      show "\<forall>j < Suc i. (pre @ [x]) ! j \<le> x"
        using Cons.prems True by (auto simp: nth_append less_Suc_eq)
      show "\<forall>j < i. (pre @ [x]) ! j < x"
        using Cons.prems True by (auto simp: nth_append)
    qed
    with True show ?thesis by simp
  next
    case False
    have "argmax_scan xs (Suc i) best_i best < length ((pre @ [x]) @ xs) \<and>
     (\<forall>j < length ((pre @ [x]) @ xs). ((pre @ [x]) @ xs) ! j \<le> ((pre @ [x]) @ xs) ! argmax_scan xs (Suc i) best_i best) \<and>
     (\<forall>j < argmax_scan xs (Suc i) best_i best. ((pre @ [x]) @ xs) ! j < ((pre @ [x]) @ xs) ! argmax_scan xs (Suc i) best_i best)"
    proof (rule Cons.IH)
      show "length (pre @ [x]) = Suc i" using Cons.prems by simp
      show "best_i < Suc i" using Cons.prems by simp
      show "(pre @ [x]) ! best_i = best" using Cons.prems by (simp add: nth_append)
      show "\<forall>j < Suc i. (pre @ [x]) ! j \<le> best"
        using Cons.prems False by (auto simp: nth_append less_Suc_eq)
      show "\<forall>j < best_i. (pre @ [x]) ! j < best"
        using Cons.prems by (auto simp: nth_append)
    qed
    with False show ?thesis by simp
  qed
qed

lemma np_argmax_spec:
  assumes "xs \<noteq> []"
  shows "\<exists>k. np_argmax xs = Inr k \<and> k < length xs \<and> (\<forall>j < length xs. xs ! j \<le> xs ! k) \<and>
     (\<forall>j < k. xs ! j < xs ! k)"
proof -
  from assms obtain x xs' where xs: "xs = x # xs'" by (cases xs) auto
  from argmax_scan_spec [of "[x]" 1 0 x xs'] xs show ?thesis
    by (simp add: np_argmax_def)
qed

lemma all_nodes_son:
  assumes "all_nodes P (Node d q l r)" and "l = Some son \<or> r = Some son"
  shows "all_nodes P son" and "P son"
proof -
  from assms show "all_nodes P son" by auto
  then show "P son" by (cases son) simp
qed

lemma classify_loop_route:
  "all_nodes sons_match_question n \<Longrightarrow> (question n \<noteq> None \<longrightarrow> b) \<Longrightarrow>
   classify_loop n b v = route n v"
proof (induction n arbitrary: b)
  case (Node d q l r)
  have step: "classify_loop son (\<not> (left_son son = None \<and> right_son son = None)) v = route son v"
    if "l = Some son \<or> r = Some son" for son
  proof -
    from all_nodes_son [OF Node.prems(1) that]
    have a: "all_nodes sons_match_question son" and m: "sons_match_question son" .
    from m have q: "question son \<noteq> None \<longrightarrow> \<not> (left_son son = None \<and> right_son son = None)"
      by (auto simp: sons_match_question_def)
    from that show ?thesis
    proof
      assume "l = Some son"
      then have "son \<in> set_option l" by simp
      from Node.IH(1) [OF this a q] show ?thesis .
    next
      assume "r = Some son"
      then have "son \<in> set_option r" by simp
      from Node.IH(2) [OF this a q] show ?thesis .
    qed
  qed
  show ?case
  proof (cases q)
    case None
    then show ?thesis by simp
  next
    case (Some ft)
    obtain f t where ft: "ft = (f, t)" by (cases ft)
    from Node.prems(2) Some have b: b by simp
    show ?thesis
    proof (cases "getitem v f")
      case (Inl e)
      with Some ft b show ?thesis by simp
    next
      case (Inr x)
      have left: "(case l of None \<Rightarrow> Inl AttributeError
                  | Some son \<Rightarrow> classify_loop son (\<not> (left_son son = None \<and> right_son son = None)) v) =
                 (case l of None \<Rightarrow> Inl AttributeError | Some son \<Rightarrow> route son v)"
        using step by (cases l) simp_all
      have right: "(case r of None \<Rightarrow> Inl AttributeError
                  | Some son \<Rightarrow> classify_loop son (\<not> (left_son son = None \<and> right_son son = None)) v) =
                 (case r of None \<Rightarrow> Inl AttributeError | Some son \<Rightarrow> route son v)"
        using step by (cases r) simp_all
      from Some ft b Inr show ?thesis
        by (simp only: classify_loop.simps route.simps option.case prod.case sum.case
            left right not_not if_True if_False simp_thms)
    qed
  qed
qed


lemma decisionTree_questions:
  assumes "decisionTree fuel ar node nb fs md r = Some (Inr (tree, r'))"
  shows "all_nodes (question_in fs) node \<Longrightarrow> all_nodes (question_in fs) tree"
  using assms
proof (induction rule: decisionTree_induct_tree)
  case (leaf node md r r' gain c1 c2 q g)
  then show ?case by simp
next
  case (split node md r gain c1 c2 q r1 g left right)
  from bestCut_candidate [OF split(1)] obtain rf t where
    cand: "is_candidate ar node fs (gain, c1, c2, rf, t)" and q: "q = (hd rf, t)"
    by blast
  from cand obtain r0 r0' where "generateCut node fs r0 = Inr (c1, c2, rf, t, r0')"
    by (auto simp: is_candidate_def)
  from generateCut_cases [OF this] have "hd rf \<in> set fs" by simp
  with q have "question_in fs (partition_node node left right q)"
    by (simp add: question_in_def partition_node_def)
  moreover have "all_nodes (question_in fs) (Node_init c1)" "all_nodes (question_in fs) (Node_init c2)"
    by (simp_all add: Node_init_def question_in_def)
  with split.IH have "all_nodes (question_in fs) left" "all_nodes (question_in fs) right"
    by simp_all
  ultimately show ?case
    by (simp add: partition_node_def)
qed

lemma answers_of_features:
  assumes "\<forall>f \<in> set fs. valid_index v f"
  shows "all_nodes (question_in fs) n \<Longrightarrow> all_nodes (answers v) n"
proof (induction n)
  case (Node d q l r)
  from Node.prems assms have "answers v (Node d q l r)"
    by (auto simp: question_in_def answers_def split: option.splits)
  moreover have "all_nodes (answers v) son" if "l = Some son \<or> r = Some son" for son
    using that Node.IH [of son] all_nodes_son(1) [OF Node.prems that] by auto
  ultimately show ?case
    by (auto split: option.splits)
qed

lemma decisionTree_answers:
  assumes "decisionTree fuel ar (Node_init d) nb fs md r = Some (Inr (tree, r'))" and "\<forall>f \<in> set fs. valid_index v f"
  shows "all_nodes (answers v) tree"
proof -
  have "all_nodes (question_in fs) tree"
    using decisionTree_questions [OF assms(1)] by (simp add: Node_init_def question_in_def)
  with answers_of_features [OF assms(2)] show ?thesis .
qed

lemma route_returns:
  "all_nodes (answers v) n \<Longrightarrow> all_nodes sons_match_question n \<Longrightarrow>
   \<exists>leaf. route n v = Inr leaf"
proof (induction n)
  case (Node d q l r)
  have step: "\<exists>leaf. route son v = Inr leaf" if "l = Some son \<or> r = Some son" for son
  proof -
    note a = all_nodes_son(1) [OF Node.prems(1) that] all_nodes_son(1) [OF Node.prems(2) that]
    from that show ?thesis
    proof
      assume "l = Some son"
      then have "son \<in> set_option l" by simp
      from Node.IH(1) [OF this a] show ?thesis .
    next
      assume "r = Some son"
      then have "son \<in> set_option r" by simp
      from Node.IH(2) [OF this a] show ?thesis .
    qed
  qed
  show ?case
  proof (cases q)
    case None
    then show ?thesis by simp
  next
    case (Some ft)
    obtain f t where ft: "ft = (f, t)" by (cases ft)
    from Node.prems(1) Some ft have "valid_index v f"
      by (simp add: answers_def)
    then obtain x where x: "getitem v f = Inr x"
      using getitem_valid by blast
    from Node.prems(2) Some have "sons_match_question (Node d q l r)" by simp
    with Some obtain ls rs where sons: "l = Some ls" "r = Some rs"
      by (auto simp: sons_match_question_def)
    from step [of ls] step [of rs] sons Some ft x show ?thesis
      by simp
  qed
qed

lemma route_leaf:
  "route n v = Inr leaf \<Longrightarrow> all_nodes P n \<Longrightarrow> P leaf \<and> question leaf = None"
proof (induction n)
  case (Node d q l r)
  show ?case
  proof (cases q)
    case None
    with Node.prems show ?thesis by auto
  next
    case (Some ft)
    obtain f t where ft: "ft = (f, t)" by (cases ft)
    from Node.prems(1) Some ft obtain x where x: "getitem v f = Inr x"
      by (auto split: sum.splits)
    show ?thesis
    proof (cases "x \<le> t")
      case True
      with Node.prems(1) Some ft x obtain son where son: "l = Some son" "route son v = Inr leaf"
        by (auto split: option.splits)
      then have "son \<in> set_option l" by simp
      from Node.IH(1) [OF this son(2)] all_nodes_son(1) [OF Node.prems(2), of son] son(1)
      show ?thesis by simp
    next
      case False
      with Node.prems(1) Some ft x obtain son where son: "r = Some son" "route son v = Inr leaf"
        by (auto split: option.splits)
      then have "son \<in> set_option r" by simp
      from Node.IH(2) [OF this son(2)] all_nodes_son(1) [OF Node.prems(2), of son] son(1)
      show ?thesis by simp
    qed
  qed
qed

text \<open>
  C2: let \<open>tree\<close> be a tree that \<open>decisionTree\<close> returns for a root made from a dataset,
  whatever the machine arithmetic (a tree is returned only for a dataset with at least one
  vector), and let \<open>v\<close> have a value at every feature index that a question of the tree asks
  about (as it has when it has a value at every feature the tree was built with).  Then
  \<open>classify\<close> returns: its loop ends in the node that routing reaches (left when
  \<open>v[featureIndex] \<le> threshold\<close>, right otherwise), that node is a leaf, and the returned
  label is a label of the leaf's dataset that has at least one vector there and whose list
  is the longest, the first such label in the order of the dataset.
\<close>

theorem classify_majority_of_leaf:
  assumes "decisionTree fuel ar (Node_init d) nb_cut features max_depth r = Some (Inr (tree, r'))"
    and "all_nodes (answers v) tree"
  shows "\<exists>leaf i. classify_loop tree True v = Inr leaf \<and> route tree v = Inr leaf \<and>
     question leaf = None \<and> left_son leaf = None \<and> right_son leaf = None \<and>
     i < length (data leaf) \<and> classify tree v = Inr (fst (data leaf ! i)) \<and>
     fst (data leaf ! i) \<in> labels_present (data leaf) \<and>
     (\<forall>j < length (data leaf). length (snd (data leaf ! j)) \<le> length (snd (data leaf ! i))) \<and>
     (\<forall>j < i. length (snd (data leaf ! j)) < length (snd (data leaf ! i)))"
proof -
  note run = assms(1)
  have shape: "all_nodes sons_match_question tree"
    using decisionTree_sons [OF run] by (simp add: Node_init_def sons_match_question_def)
  have nonempty: "all_nodes (\<lambda>n. 0 < lenDictValues (data n)) tree"
    using decisionTree_nonempty [OF run] by (simp add: Node_init_def)
  from route_returns [OF assms(2) shape] obtain leaf where
    leaf: "route tree v = Inr leaf"
    by blast
  have loop: "classify_loop tree True v = Inr leaf"
    using classify_loop_route [OF shape, of True v] leaf by simp
  from route_leaf [OF leaf shape] have m: "sons_match_question leaf" and q: "question leaf = None"
    by simp_all
  then have sons: "left_son leaf = None" "right_son leaf = None"
    by (auto simp: sons_match_question_def)
  from route_leaf [OF leaf nonempty] have ne: "0 < lenDictValues (data leaf)"
    by simp
  let ?xs = "map (\<lambda>points. length points) (map snd (data leaf))"
  from ne have "?xs \<noteq> []" by (auto simp: lenDictValues_def)
  from np_argmax_spec [OF this] obtain i where
    i: "np_argmax ?xs = Inr i" "i < length ?xs" "\<forall>j < length ?xs. ?xs ! j \<le> ?xs ! i"
      "\<forall>j < i. ?xs ! j < ?xs ! i"
    by blast
  from i(2) have il: "i < length (data leaf)" by simp
  have lab: "classify tree v = Inr (fst (data leaf ! i))"
    using loop i(1) il by (simp add: classify_def getitem_def)
  have max: "\<forall>j < length (data leaf). length (snd (data leaf ! j)) \<le> length (snd (data leaf ! i))"
    using i(3) il by simp
  have first: "\<forall>j < i. length (snd (data leaf ! j)) < length (snd (data leaf ! i))"
    using i(4) il by simp
  have "snd (data leaf ! i) \<noteq> []"
  proof
    assume e: "snd (data leaf ! i) = []"
    with max have "\<forall>j < length (data leaf). snd (data leaf ! j) = []" by simp
    then have "\<forall>x \<in> set (data leaf). snd x = []"
      by (metis in_set_conv_nth)
    then have "lenDictValues (data leaf) = 0"
      by (simp add: lenDictValues_def)
    with ne show False by simp
  qed
  with il have "fst (data leaf ! i) \<in> labels_present (data leaf)"
    by (auto simp: labels_present_def intro!: image_eqI [of _ fst "data leaf ! i"])
  with loop leaf q sons il lab max first show ?thesis by blast
qed

theorem classify_majority_of_leaf_witness:
  "classify (Node [(0, [[0]]), (1, [[1]])] (Some (0, 1))
        (Some (Node [(0, [[0]])] None None None))
        (Some (Node [(1, [[1]])] None None None))) [2] = Inr 1 \<and>
   route (Node [(0, [[0]]), (1, [[1]])] (Some (0, 1))
        (Some (Node [(0, [[0]])] None None None))
        (Some (Node [(1, [[1]])] None None None))) [2] = Inr (Node [(1, [[1]])] None None None) \<and>
   (\<exists>leaf i. route (Node [(0, [[0]]), (1, [[1]])] (Some (0, 1))
        (Some (Node [(0, [[0]])] None None None))
        (Some (Node [(1, [[1]])] None None None))) [2] = Inr leaf \<and>
      i < length (data leaf) \<and>
      classify (Node [(0, [[0]]), (1, [[1]])] (Some (0, 1))
        (Some (Node [(0, [[0]])] None None None))
        (Some (Node [(1, [[1]])] None None None))) [2] = Inr (fst (data leaf ! i)) \<and>
      fst (data leaf ! i) \<in> labels_present (data leaf))"
proof -
  let ?D = "[(0, [[0]]), (1, [[1]])] :: dataset"
  let ?T = "Node ?D (Some (0, 1)) (Some (Node [(0, [[0]])] None None None))
            (Some (Node [(1, [[1]])] None None None))"
  have v: "all_nodes (answers [2]) ?T"
    by (simp add: answers_def valid_index_def)
  from classify_majority_of_leaf [OF decisionTree_example v]
  have "\<exists>leaf i. route ?T [2] = Inr leaf \<and> i < length (data leaf) \<and>
      classify ?T [2] = Inr (fst (data leaf ! i)) \<and>
      fst (data leaf ! i) \<in> labels_present (data leaf)"
    by blast
  moreover have "route ?T [2] = Inr (Node [(1, [[1]])] None None None)"
    by (simp add: getitem_def)
  moreover have "classify ?T [2] = Inr 1"
    by (simp add: classify_def getitem_def np_argmax_def)
  ultimately show ?thesis by (intro conjI)
qed

section \<open>The information gain of a partition is not negative\<close>

lemma vectors_of_absent: "k \<notin> set (map fst dic) \<Longrightarrow> vectors_of dic k = []"
  by (induction dic) (auto simp: vectors_of_def)

lemma vectors_of_Cons:
  "vectors_of ((k0, l0) # dic) k = (if k = k0 then l0 @ vectors_of dic k else vectors_of dic k)"
  by (simp add: vectors_of_def)

lemma sum_list_by_label:
  fixes f :: "nat \<Rightarrow> rat"
  assumes "f 0 = 0" "finite K"
  shows "distinct (map fst dic) \<Longrightarrow> set (map fst dic) \<subseteq> K \<Longrightarrow>
     sum_list (map f (label_counts dic)) = (\<Sum>k \<in> K. f (length (vectors_of dic k)))"
proof (induction dic)
  case Nil
  then show ?case using assms by (simp add: label_counts_def vectors_of_def)
next
  case (Cons item dic)
  obtain k0 l0 where item: "item = (k0, l0)" by (cases item)
  from Cons.prems item have k0: "k0 \<in> K" "k0 \<notin> set (map fst dic)"
    and d: "distinct (map fst dic)" "set (map fst dic) \<subseteq> K"
    by auto
  have e: "vectors_of dic k0 = []"
    using k0(2) by (rule vectors_of_absent)
  have "(\<Sum>k \<in> K. f (length (vectors_of (item # dic) k))) =
      f (length (vectors_of (item # dic) k0)) + (\<Sum>k \<in> K - {k0}. f (length (vectors_of (item # dic) k)))"
    using assms(2) k0(1) by (rule sum.remove)
  also have "f (length (vectors_of (item # dic) k0)) = f (length l0)"
    using e item by (simp add: vectors_of_Cons)
  also have "(\<Sum>k \<in> K - {k0}. f (length (vectors_of (item # dic) k))) =
      (\<Sum>k \<in> K - {k0}. f (length (vectors_of dic k)))"
    using item by (intro sum.cong) (simp_all add: vectors_of_Cons)
  also have "\<dots> = (\<Sum>k \<in> K. f (length (vectors_of dic k)))"
  proof -
    have "(\<Sum>k \<in> K. f (length (vectors_of dic k))) =
        f (length (vectors_of dic k0)) + (\<Sum>k \<in> K - {k0}. f (length (vectors_of dic k)))"
      using assms(2) k0(1) by (rule sum.remove)
    with e assms(1) show ?thesis by simp
  qed
  also have "\<dots> = sum_list (map f (label_counts dic))"
    using Cons.IH [OF d] by simp
  finally show ?case
    using item by (simp add: label_counts_def)
qed

lemma square_split_le:
  fixes a b A B :: rat
  assumes "0 < A" "0 < B"
  shows "(a + b)\<^sup>2 / (A + B) \<le> a\<^sup>2 / A + b\<^sup>2 / B"
proof -
  have "0 \<le> (a * B - b * A)\<^sup>2" by simp
  then have "2 * a * b * A * B \<le> a\<^sup>2 * B\<^sup>2 + b\<^sup>2 * A\<^sup>2"
    by (simp add: power2_eq_square algebra_simps)
  then have "(a + b)\<^sup>2 * (A * B) \<le> (a\<^sup>2 * B + b\<^sup>2 * A) * (A + B)"
    by (simp add: power2_eq_square algebra_simps)
  moreover have "0 < A + B" "0 < A * B" using assms by simp_all
  ultimately have "(a + b)\<^sup>2 / (A + B) \<le> (a\<^sup>2 * B + b\<^sup>2 * A) / (A * B)"
    by (simp add: divide_le_eq le_divide_eq pos_divide_le_eq pos_le_divide_eq mult.commute)
  also have "(a\<^sup>2 * B + b\<^sup>2 * A) / (A * B) = a\<^sup>2 / A + b\<^sup>2 / B"
    using assms by (simp add: field_simps)
  finally show ?thesis .
qed


lemma lenDictValues_by_label:
  assumes "finite K" "distinct (map fst dic)" "set (map fst dic) \<subseteq> K"
  shows "rat_of_nat (lenDictValues dic) = (\<Sum>k \<in> K. rat_of_nat (length (vectors_of dic k)))"
proof -
  have "sum_list (map rat_of_nat (label_counts dic)) = (\<Sum>k \<in> K. rat_of_nat (length (vectors_of dic k)))"
    using assms by (intro sum_list_by_label) simp_all
  then show ?thesis
    by (simp add: sum_list_of_nat sum_list_label_counts)
qed

lemma gini_by_label:
  assumes "finite K" "distinct (map fst dic)" "set (map fst dic) \<subseteq> K" "0 < lenDictValues dic"
  shows "gini dic = Inr (1 - (\<Sum>k \<in> K. (rat_of_nat (length (vectors_of dic k)))\<^sup>2)
                          / (rat_of_nat (lenDictValues dic))\<^sup>2)"
proof -
  have "sum_list (map (\<lambda>n. (rat_of_nat n)\<^sup>2) (label_counts dic)) =
      (\<Sum>k \<in> K. (rat_of_nat (length (vectors_of dic k)))\<^sup>2)"
    using assms(1-3) by (intro sum_list_by_label) simp_all
  with gini_value [OF assms(4)] show ?thesis by simp
qed

lemma gini_returns: "0 < lenDictValues dic \<Longrightarrow> \<exists>g. gini dic = Inr g"
  by (simp add: gini_value)

lemma gain_algebra:
  fixes A B N Sa Sb Sn :: rat
  assumes "0 < A" "0 < B" "N = A + B"
  shows "(1 - Sn / N\<^sup>2) - (A / N * (1 - Sa / A\<^sup>2) + (1 - A / N) * (1 - Sb / B\<^sup>2)) =
         (Sa / A + Sb / B - Sn / N) / N"
proof -
  have N: "N \<noteq> 0" and A: "A \<noteq> 0" and B: "B \<noteq> 0"
    using assms by simp_all
  have 1: "A / N * (1 - Sa / A\<^sup>2) = A / N - (Sa / A) / N"
    using A N by (simp add: power2_eq_square field_simps)
  have "1 - A / N = (N - A) / N"
    using N by (simp add: diff_divide_distrib)
  also have "N - A = B" using assms(3) by simp
  finally have "(1 - A / N) * (1 - Sb / B\<^sup>2) = B / N * (1 - Sb / B\<^sup>2)"
    by simp
  also have "\<dots> = B / N - (Sb / B) / N"
    using B N by (simp add: power2_eq_square field_simps)
  finally have 2: "(1 - A / N) * (1 - Sb / B\<^sup>2) = B / N - (Sb / B) / N" .
  have 3: "Sn / N\<^sup>2 = (Sn / N) / N"
    by (simp add: power2_eq_square)
  have "A / N + B / N = (A + B) / N"
    by (simp add: add_divide_distrib)
  with assms(3) N have 4: "A / N + B / N = 1" by simp
  have "(1 - Sn / N\<^sup>2) - (A / N * (1 - Sa / A\<^sup>2) + (1 - A / N) * (1 - Sb / B\<^sup>2)) =
      1 - (Sn / N) / N - (A / N - (Sa / A) / N + (B / N - (Sb / B) / N))"
    unfolding 1 2 3 ..
  also have "\<dots> = 1 - (A / N + B / N) + ((Sa / A) / N + (Sb / B) / N - (Sn / N) / N)"
    by simp
  also have "\<dots> = (Sa / A) / N + (Sb / B) / N - (Sn / N) / N"
    unfolding 4 by simp
  also have "\<dots> = (Sa / A + Sb / B - Sn / N) / N"
    by (simp add: add_divide_distrib diff_divide_distrib)
  finally show ?thesis .
qed

text \<open>
  C7: over exact rational arithmetic, when \<open>c1\<close> and \<open>c2\<close> partition the vectors of a
  dataset \<open>c\<close> that has at least one vector, and keep their labels, every value that
  \<open>infoGain\<close> returns is \<open>\<ge> 0\<close>; and it returns a value whenever each side is either without
  a label or has a vector.
\<close>

theorem infoGain_nonneg:
  assumes part: "is_partition c c1 c2" and ne: "0 < lenDictValues c"
  shows "(infoGain c c1 c2 = Inr g \<longrightarrow> 0 \<le> g) \<and>
         ((c1 = [] \<or> 0 < lenDictValues c1) \<and> (c2 = [] \<or> 0 < lenDictValues c2) \<longrightarrow>
          (\<exists>g. infoGain c c1 c2 = Inr g))"
proof (intro conjI impI)
  assume sides: "(c1 = [] \<or> 0 < lenDictValues c1) \<and> (c2 = [] \<or> 0 < lenDictValues c2)"
  have ret: "\<exists>g. gini x = Inr g" if "x = [] \<or> 0 < lenDictValues x" for x
  proof (cases "x = []")
    case True
    then show ?thesis by (simp add: gini_Nil)
  next
    case False
    with that have "0 < lenDictValues x" by simp
    then show ?thesis by (rule gini_returns)
  qed
  from sides have s1: "c1 = [] \<or> 0 < lenDictValues c1" and s2: "c2 = [] \<or> 0 < lenDictValues c2"
    by simp_all
  from ret [OF s1] obtain g1 where g1: "gini c1 = Inr g1" ..
  from ret [OF s2] obtain g2 where g2: "gini c2 = Inr g2" ..
  note g12 = g1 g2
  from gini_returns [OF ne] obtain gc where "gini c = Inr gc" ..
  with g12 show "\<exists>g. infoGain c c1 c2 = Inr g"
    using ne by (simp add: infoGain_def Let_def)
next
  assume gain: "infoGain c c1 c2 = Inr g"
  define K where "K = set (map fst c) \<union> set (map fst c1) \<union> set (map fst c2)"
  define n where "n k = rat_of_nat (length (vectors_of c k))" for k
  define a where "a k = rat_of_nat (length (vectors_of c1 k))" for k
  define b where "b k = rat_of_nat (length (vectors_of c2 k))" for k
  define N where "N = rat_of_nat (lenDictValues c)"
  define A where "A = rat_of_nat (lenDictValues c1)"
  define B where "B = rat_of_nat (lenDictValues c2)"
  have fin: "finite K" by (simp add: K_def)
  have dc: "distinct (map fst c)" "distinct (map fst c1)" "distinct (map fst c2)"
    using part by (simp_all add: is_partition_def is_dict_def)
  have sub: "set (map fst c) \<subseteq> K" "set (map fst c1) \<subseteq> K" "set (map fst c2) \<subseteq> K"
    by (auto simp: K_def)
  have nab: "n k = a k + b k" if "k \<in> K" for k
  proof -
    from part that have "mset (vectors_of c k) = mset (vectors_of c1 k) + mset (vectors_of c2 k)"
      by (auto simp: is_partition_def list_all_iff K_def)
    then have "size (mset (vectors_of c k)) = size (mset (vectors_of c1 k) + mset (vectors_of c2 k))"
      by simp
    then show ?thesis by (simp add: n_def a_def b_def)
  qed
  have Nsum: "N = (\<Sum>k \<in> K. n k)" and Asum: "A = (\<Sum>k \<in> K. a k)" and Bsum: "B = (\<Sum>k \<in> K. b k)"
    unfolding N_def A_def B_def n_def a_def b_def
    using fin dc sub by (simp_all add: lenDictValues_by_label)
  have NAB: "N = A + B"
    unfolding Nsum Asum Bsum using nab by (simp add: sum.distrib [symmetric])
  have Npos: "0 < N" using ne by (simp add: N_def)
  have a0: "0 \<le> a k" and b0: "0 \<le> b k" for k
    by (simp_all add: a_def b_def)
  have A0: "0 \<le> A" and B0: "0 \<le> B" by (simp_all add: A_def B_def)
  from gini_returns [OF ne] obtain gc where gc: "gini c = Inr gc" ..
  from gain ne gc obtain g1 where g1: "gini c1 = Inr g1"
    by (cases "gini c1") (simp_all add: infoGain_def Let_def)
  from gain ne gc g1 obtain g2 where g2: "gini c2 = Inr g2"
    by (cases "gini c2") (simp_all add: infoGain_def Let_def)
  from gain ne gc g1 g2 have g: "g = gc - (A / N * g1 + (1 - A / N) * g2)"
    by (simp add: infoGain_def Let_def A_def N_def)
  have gcv: "gc = 1 - (\<Sum>k \<in> K. (n k)\<^sup>2) / N\<^sup>2"
    using gini_by_label [OF fin dc(1) sub(1) ne] gc by (simp add: n_def N_def)
  have g1v: "g1 = 1 - (\<Sum>k \<in> K. (a k)\<^sup>2) / A\<^sup>2" if "0 < A"
    using gini_by_label [OF fin dc(2) sub(2)] that g1 by (simp add: a_def A_def)
  have g2v: "g2 = 1 - (\<Sum>k \<in> K. (b k)\<^sup>2) / B\<^sup>2" if "0 < B"
    using gini_by_label [OF fin dc(3) sub(3)] that g2 by (simp add: b_def B_def)
  consider "A = 0" | "B = 0" | "0 < A" "0 < B"
    using A0 B0 by fastforce
  then show "0 \<le> g"
  proof cases
    case 1
    then have "\<forall>k \<in> K. a k = 0"
      using Asum a0 fin by (simp add: sum_nonneg_eq_0_iff)
    with nab have "(\<Sum>k \<in> K. (n k)\<^sup>2) = (\<Sum>k \<in> K. (b k)\<^sup>2)"
      by (intro sum.cong) simp_all
    moreover from 1 NAB have "B = N" by simp
    ultimately have "g2 = gc"
      using g2v gcv Npos by simp
    with g 1 show ?thesis by simp
  next
    case 2
    then have "\<forall>k \<in> K. b k = 0"
      using Bsum b0 fin by (simp add: sum_nonneg_eq_0_iff)
    with nab have "(\<Sum>k \<in> K. (n k)\<^sup>2) = (\<Sum>k \<in> K. (a k)\<^sup>2)"
      by (intro sum.cong) simp_all
    moreover from 2 NAB have AN: "A = N" by simp
    ultimately have "g1 = gc"
      using g1v gcv Npos by simp
    with g AN Npos show ?thesis by simp
  next
    case 3
    let ?Sn = "\<Sum>k \<in> K. (n k)\<^sup>2" and ?Sa = "\<Sum>k \<in> K. (a k)\<^sup>2" and ?Sb = "\<Sum>k \<in> K. (b k)\<^sup>2"
    have "?Sn / N = (\<Sum>k \<in> K. (a k + b k)\<^sup>2 / (A + B))"
      using nab NAB by (simp add: sum_divide_distrib)
    also have "\<dots> \<le> (\<Sum>k \<in> K. (a k)\<^sup>2 / A + (b k)\<^sup>2 / B)"
      by (intro sum_mono square_split_le 3)
    also have "\<dots> = ?Sa / A + ?Sb / B"
      by (simp add: sum.distrib sum_divide_distrib)
    finally have le: "?Sn / N \<le> ?Sa / A + ?Sb / B" .
    have "g = (1 - ?Sn / N\<^sup>2) - (A / N * (1 - ?Sa / A\<^sup>2) + (1 - A / N) * (1 - ?Sb / B\<^sup>2))"
      unfolding g gcv g1v [OF 3(1)] g2v [OF 3(2)] ..
    also have "\<dots> = (?Sa / A + ?Sb / B - ?Sn / N) / N"
      by (rule gain_algebra [OF 3 NAB])
    finally show ?thesis
      using le Npos by simp
  qed
qed


theorem infoGain_nonneg_witness:
  "infoGain [(0, [[0]]), (1, [[1]])] [(0, [[0]])] [(1, [[1]])] = Inr (1 / 2) \<and> (0::rat) \<le> 1 / 2 \<and>
   (\<exists>g. infoGain [(0, [[0]]), (1, [[1]])] [(0, [[0]])] [(1, [[1]])] = Inr g)"
proof -
  let ?c = "[(0, [[0]]), (1, [[1]])] :: dataset"
  let ?c1 = "[(0, [[0]])] :: dataset"
  let ?c2 = "[(1, [[1]])] :: dataset"
  have part: "is_partition ?c ?c1 ?c2"
    by (simp add: is_partition_def is_dict_def vectors_of_def)
  have ne: "0 < lenDictValues ?c"
    by (simp add: lenDictValues_def)
  have val: "infoGain ?c ?c1 ?c2 = Inr (1 / 2)"
    by (simp add: infoGain_def gini_def lenDictValues_def power2_eq_square)
  have sides: "(?c1 = [] \<or> 0 < lenDictValues ?c1) \<and> (?c2 = [] \<or> 0 < lenDictValues ?c2)"
    by (simp add: lenDictValues_def)
  from infoGain_nonneg [OF part ne, of "1 / 2"] val sides
  show ?thesis by blast
qed

section \<open>Sampling without replacement\<close>

lemma length_flat_items: "length (flat_items dic) = lenDictValues dic"
  by (induction dic) (auto simp: flat_items_def lenDictValues_def)

lemma flat_items_Cons: "flat_items ((k, l) # dic) = map (\<lambda>v. (k, v)) l @ flat_items dic"
  by (simp add: flat_items_def)

lemma sample_loop_distinct:
  "k \<le> length pool \<Longrightarrow> distinct pool \<Longrightarrow>
   length (fst (sample_loop pool k r)) = k \<and> distinct (fst (sample_loop pool k r)) \<and>
   set (fst (sample_loop pool k r)) \<subseteq> set pool"
proof (induction k arbitrary: pool r)
  case 0
  then show ?case by simp
next
  case (Suc k)
  define j where "j = r 0 mod length pool"
  define pool' where "pool' = take j pool @ drop (Suc j) pool"
  define r1 where "r1 = (\<lambda>i. r (Suc i))"
  from Suc.prems(1) have "0 < length pool" by (cases pool) simp_all
  then have j: "j < length pool"
    by (simp add: j_def)
  then have split: "pool = take j pool @ pool ! j # drop (Suc j) pool"
    by (rule id_take_nth_drop)
  have len': "k \<le> length pool'"
    using Suc.prems(1) j by (simp add: pool'_def)
  have "distinct (take j pool @ pool ! j # drop (Suc j) pool)"
    using Suc.prems(2) split by simp
  then have d': "distinct pool'" and notin: "pool ! j \<notin> set pool'"
    by (simp_all add: pool'_def)
  have sub': "set pool' \<subseteq> set pool"
    by (auto simp: pool'_def dest: in_set_takeD in_set_dropD)
  from Suc.IH [OF len' d', of r1]
  have ih: "length (fst (sample_loop pool' k r1)) = k" "distinct (fst (sample_loop pool' k r1))"
    "set (fst (sample_loop pool' k r1)) \<subseteq> set pool'"
    by simp_all
  have eq: "fst (sample_loop pool (Suc k) r) = pool ! j # fst (sample_loop pool' k r1)"
    by (simp add: randbelow_def j_def pool'_def r1_def split: prod.splits)
  from ih notin sub' j show ?case
    unfolding eq by auto
qed

lemma rd_sample_range:
  assumes "0 \<le> k" "k \<le> int n"
  shows "\<exists>idx r'. rd_sample [0..<n] k r = Inr (idx, r') \<and> length idx = nat k \<and> distinct idx \<and>
     (\<forall>i \<in> set idx. i < n)"
proof -
  from assms have "nat k \<le> length [0..<n]" by simp
  from sample_loop_distinct [OF this, of r]
  have "length (fst (sample_loop [0..<n] (nat k) r)) = nat k"
    "distinct (fst (sample_loop [0..<n] (nat k) r))"
    "\<forall>i \<in> set (fst (sample_loop [0..<n] (nat k) r)). i < n"
    by auto
  moreover have "rd_sample [0..<n] k r =
      Inr (fst (sample_loop [0..<n] (nat k) r), snd (sample_loop [0..<n] (nat k) r))"
    using assms by (simp add: rd_sample_def)
  ultimately show ?thesis by blast
qed

lemma sample_pick_flat:
  "i < lenDictValues dic \<Longrightarrow>
   sample_pick dic i d = dd_append d (fst (flat_items dic ! i)) (snd (flat_items dic ! i))"
proof (induction dic arbitrary: i)
  case Nil
  then show ?case by (simp add: lenDictValues_def)
next
  case (Cons item dic)
  obtain k l where item: "item = (k, l)" by (cases item)
  show ?case
  proof (cases "i < length l")
    case True
    then show ?thesis
      using item by (simp add: flat_items_Cons nth_append)
  next
    case False
    with Cons.prems item have "i - length l < lenDictValues dic"
      by (simp add: lenDictValues_Cons)
    from Cons.IH [OF this] False item show ?thesis
      by (simp add: flat_items_Cons nth_append)
  qed
qed

lemma vectors_of_dd_append:
  "distinct (map fst d) \<Longrightarrow>
   vectors_of (dd_append d key v) k = (if k = key then vectors_of d k @ [v] else vectors_of d k)"
proof (induction d key v rule: dd_append.induct)
  case (1 key v)
  then show ?case by (simp add: vectors_of_def)
next
  case (2 k0 l d key v)
  show ?case
  proof (cases "k0 = key")
    case True
    with 2(2) have "vectors_of d key = []"
      by (intro vectors_of_absent) simp
    with True show ?thesis
      by (simp add: vectors_of_Cons)
  next
    case False
    with 2 have "vectors_of (dd_append d key v) k =
        (if k = key then vectors_of d k @ [v] else vectors_of d k)"
      by simp
    with False show ?thesis
      by (auto simp: vectors_of_Cons)
  qed
qed

lemma sample_fill_spec:
  assumes "\<forall>i \<in> set idx. i < lenDictValues dic" "distinct (map fst d)"
  shows "distinct (map fst (sample_fill dic idx d)) \<and>
     lenDictValues (sample_fill dic idx d) = lenDictValues d + length idx \<and>
     (\<forall>k. vectors_of (sample_fill dic idx d) k =
        vectors_of d k @ map snd (filter (\<lambda>p. fst p = k) (map (\<lambda>i. flat_items dic ! i) idx)))"
  using assms
proof (induction idx arbitrary: d)
  case Nil
  then show ?case by simp
next
  case (Cons i idx)
  let ?p = "flat_items dic ! i"
  let ?d = "dd_append d (fst ?p) (snd ?p)"
  from Cons.prems have i: "i < lenDictValues dic" and rest: "\<forall>i \<in> set idx. i < lenDictValues dic"
    by simp_all
  have pick: "sample_pick dic i d = ?d"
    using i by (rule sample_pick_flat)
  have dd: "distinct (map fst ?d)"
    using Cons.prems(2) by (rule distinct_dd_append)
  from Cons.IH [OF rest dd] pick vectors_of_dd_append [OF Cons.prems(2)]
  show ?case
    by (simp add: len_dd_append)
qed

text \<open>
  C9 (as the code has it): with \<open>n\<close> the number of vectors of the dataset, for
  \<open>0 \<le> sample_size \<le> n\<close> \<open>sampleDict\<close> returns a dataset made from \<open>sample_size\<close> pairwise
  different flat positions of the dataset: it holds exactly \<open>sample_size\<close> vectors and, under
  each label, the vectors found at the drawn positions that carry this label, in the order
  drawn.  For \<open>sample_size > n\<close>, and also for \<open>sample_size < 0\<close>, it fails (\<open>ValueError\<close> of
  \<open>random.sample\<close>) instead of returning a dataset.
\<close>

theorem sampleDict_positions:
  "(0 \<le> sample_size \<and> sample_size \<le> int (lenDictValues dic) \<longrightarrow>
    (\<exists>idx d r'. sampleDict dic sample_size r = Inr (d, r') \<and>
       length idx = nat sample_size \<and> distinct idx \<and> (\<forall>i \<in> set idx. i < lenDictValues dic) \<and>
       is_dict d \<and> lenDictValues d = nat sample_size \<and>
       (\<forall>k. vectors_of d k = map snd (filter (\<lambda>p. fst p = k) (map (\<lambda>i. flat_items dic ! i) idx))))) \<and>
   (sample_size < 0 \<or> int (lenDictValues dic) < sample_size \<longrightarrow>
    sampleDict dic sample_size r = Inl ValueError)"
proof (intro conjI impI)
  assume "0 \<le> sample_size \<and> sample_size \<le> int (lenDictValues dic)"
  then have "0 \<le> sample_size" "sample_size \<le> int (lenDictValues dic)" by simp_all
  from rd_sample_range [OF this, of r] obtain idx r' where
    idx: "rd_sample [0..<lenDictValues dic] sample_size r = Inr (idx, r')"
      "length idx = nat sample_size" "distinct idx" "\<forall>i \<in> set idx. i < lenDictValues dic"
    by blast
  have "distinct (map fst ([] :: dataset))" by simp
  from sample_fill_spec [OF idx(4) this]
  have "is_dict (sample_fill dic idx [])" "lenDictValues (sample_fill dic idx []) = nat sample_size"
    "\<forall>k. vectors_of (sample_fill dic idx []) k =
        map snd (filter (\<lambda>p. fst p = k) (map (\<lambda>i. flat_items dic ! i) idx))"
    using idx(2) by (simp_all add: is_dict_def lenDictValues_Nil vectors_of_def)
  moreover have "sampleDict dic sample_size r = Inr (sample_fill dic idx [], r')"
    using idx(1) by (simp add: sampleDict_def)
  ultimately show "\<exists>idx d r'. sampleDict dic sample_size r = Inr (d, r') \<and>
       length idx = nat sample_size \<and> distinct idx \<and> (\<forall>i \<in> set idx. i < lenDictValues dic) \<and>
       is_dict d \<and> lenDictValues d = nat sample_size \<and>
       (\<forall>k. vectors_of d k = map snd (filter (\<lambda>p. fst p = k) (map (\<lambda>i. flat_items dic ! i) idx)))"
    using idx(2,3,4) by blast
next
  assume "sample_size < 0 \<or> int (lenDictValues dic) < sample_size"
  then show "sampleDict dic sample_size r = Inl ValueError"
    by (auto simp: sampleDict_def rd_sample_def)
qed


theorem sampleDict_positions_witness:
  "sampleDict [(0, [[0]]), (1, [[1]])] 1 (\<lambda>_. Suc 0) = Inr ([(1, [[1]])], \<lambda>_. Suc 0) \<and>
   sampleDict [(0, [[0]]), (1, [[1]])] 3 (\<lambda>_. Suc 0) = Inl ValueError \<and>
   (\<exists>idx d r'. sampleDict [(0, [[0]]), (1, [[1]])] 1 (\<lambda>_. Suc 0) = Inr (d, r') \<and>
      length idx = nat 1 \<and> distinct idx \<and> (\<forall>i \<in> set idx. i < lenDictValues [(0, [[0]]), (1, [[1]])]) \<and>
      is_dict d \<and> lenDictValues d = nat 1 \<and>
      (\<forall>k. vectors_of d k =
         map snd (filter (\<lambda>p. fst p = k) (map (\<lambda>i. flat_items [(0, [[0]]), (1, [[1]])] ! i) idx))))"
proof -
  let ?D = "[(0, [[0]]), (1, [[1]])] :: dataset"
  have n: "lenDictValues ?D = 2"
    by (simp add: lenDictValues_def)
  have small: "(0::int) \<le> 1 \<and> 1 \<le> int (lenDictValues ?D)"
    and large: "(3::int) < 0 \<or> int (lenDictValues ?D) < 3"
    by (simp_all add: n)
  from sampleDict_positions [of 1 ?D "\<lambda>_. Suc 0", THEN conjunct1, THEN mp, OF small]
  have "\<exists>idx d r'. sampleDict ?D 1 (\<lambda>_. Suc 0) = Inr (d, r') \<and>
      length idx = nat 1 \<and> distinct idx \<and> (\<forall>i \<in> set idx. i < lenDictValues ?D) \<and>
      is_dict d \<and> lenDictValues d = nat 1 \<and>
      (\<forall>k. vectors_of d k =
         map snd (filter (\<lambda>p. fst p = k) (map (\<lambda>i. flat_items ?D ! i) idx)))" .
  moreover from sampleDict_positions [of 3 ?D "\<lambda>_. Suc 0", THEN conjunct2, THEN mp, OF large]
  have "sampleDict ?D 3 (\<lambda>_. Suc 0) = Inl ValueError" .
  moreover have "sampleDict ?D 1 (\<lambda>_. Suc 0) = Inr ([(1, [[1]])], \<lambda>_. Suc 0)"
    by (simp add: sampleDict_def rd_sample_def n randbelow_def upt_rec)
  ultimately show ?thesis by (intro conjI)
qed

theorem sampleDict_negative_counterexample:
  "(- 1 :: int) \<le> int (lenDictValues [(0, [[0]])]) \<and>
   sampleDict [(0, [[0]])] (- 1) (\<lambda>_. 0) = Inl ValueError"
  by (simp add: sampleDict_def rd_sample_def)

section \<open>The cut that \<open>bestCut\<close> keeps\<close>

lemma gain_lt_le: "gain_lt ar node g cand \<Longrightarrow> gain_le ar node g cand"
  by (auto simp: gain_lt_def gain_le_def split: sum.splits)

lemma gain_le_trans: "gain_le ar node g cand \<Longrightarrow> g \<le> g' \<Longrightarrow> gain_le ar node g' cand"
  by (auto simp: gain_le_def split: sum.splits)

lemma gain_le_lt_trans: "gain_le ar node g cand \<Longrightarrow> g < g' \<Longrightarrow> gain_lt ar node g' cand"
  by (auto simp: gain_le_def gain_lt_def split: sum.splits)

lemma gain_lt_trans: "gain_lt ar node g cand \<Longrightarrow> g \<le> g' \<Longrightarrow> gain_lt ar node g' cand"
  by (auto simp: gain_lt_def split: sum.splits)

lemma bestCut_loop_spec:
  assumes "bestCut_loop ar node features n (bg, bc) r = Inr ((g', c'), r')"
  shows "\<exists>cuts. draw_cuts node features n r = Inr (cuts, r') \<and> length cuts = n \<and>
     ((g', c') = (bg, bc) \<and> list_all (gain_le ar node bg) (filter (\<lambda>c. \<not> degenerate c) cuts) \<or>
      (\<exists>pre post. filter (\<lambda>c. \<not> degenerate c) cuts = pre @ c' # post \<and>
         infoGain_fl ar (data node) (fst c') (fst (snd c')) = Inr g' \<and> bg < g' \<and>
         list_all (gain_lt ar node g') pre \<and> list_all (gain_le ar node g') post))"
  using assms
proof (induction n arbitrary: bg bc r)
  case 0
  then show ?case by simp
next
  case (Suc n)
  from Suc.prems obtain c1 c2 rf t r1 where
    cut: "generateCut node features r = Inr (c1, c2, rf, t, r1)"
    by (auto split: sum.splits)
  let ?c = "(c1, c2, rf, t)"
  let ?nd = "\<lambda>c. \<not> degenerate c"
  show ?case
  proof (cases "length c1 = 0 \<or> length c2 = 0")
    case True
    with Suc.prems cut have "bestCut_loop ar node features n (bg, bc) r1 = Inr ((g', c'), r')"
      by simp
    from Suc.IH [OF this] obtain cuts where
      cuts: "draw_cuts node features n r1 = Inr (cuts, r')" "length cuts = n"
        "(g', c') = (bg, bc) \<and> list_all (gain_le ar node bg) (filter ?nd cuts) \<or>
         (\<exists>pre post. filter ?nd cuts = pre @ c' # post \<and>
           infoGain_fl ar (data node) (fst c') (fst (snd c')) = Inr g' \<and> bg < g' \<and>
           list_all (gain_lt ar node g') pre \<and> list_all (gain_le ar node g') post)"
      by blast
    from True have "filter ?nd (?c # cuts) = filter ?nd cuts"
      by (simp add: degenerate_def)
    with cuts cut show ?thesis
      by (intro exI [of _ "?c # cuts"]) simp
  next
    case False
    then have nd: "\<not> degenerate ?c"
      by (simp add: degenerate_def)
    from False Suc.prems cut obtain g where g: "infoGain_fl ar (data node) c1 c2 = Inr g"
      by (auto split: sum.splits)
    show ?thesis
    proof (cases "g > bg")
      case True
      with Suc.prems cut False g
      have "bestCut_loop ar node features n (g, ?c) r1 = Inr ((g', c'), r')"
        by simp
      from Suc.IH [OF this] obtain cuts where
        cuts: "draw_cuts node features n r1 = Inr (cuts, r')" "length cuts = n"
          "(g', c') = (g, ?c) \<and> list_all (gain_le ar node g) (filter ?nd cuts) \<or>
           (\<exists>pre post. filter ?nd cuts = pre @ c' # post \<and>
             infoGain_fl ar (data node) (fst c') (fst (snd c')) = Inr g' \<and> g < g' \<and>
             list_all (gain_lt ar node g') pre \<and> list_all (gain_le ar node g') post)"
        by blast
      have draw: "draw_cuts node features (Suc n) r = Inr (?c # cuts, r')"
        using cut cuts(1) by simp
      from cuts(3) have "\<exists>pre post. filter ?nd (?c # cuts) = pre @ c' # post \<and>
           infoGain_fl ar (data node) (fst c') (fst (snd c')) = Inr g' \<and> bg < g' \<and>
           list_all (gain_lt ar node g') pre \<and> list_all (gain_le ar node g') post"
      proof
        assume a: "(g', c') = (g, ?c) \<and> list_all (gain_le ar node g) (filter ?nd cuts)"
        then have "filter ?nd (?c # cuts) = [] @ c' # filter ?nd cuts"
          by (simp add: nd)
        with a g True show ?thesis
          by (intro exI [of _ "[]"] exI [of _ "filter ?nd cuts"]) auto
      next
        assume "\<exists>pre post. filter ?nd cuts = pre @ c' # post \<and>
             infoGain_fl ar (data node) (fst c') (fst (snd c')) = Inr g' \<and> g < g' \<and>
             list_all (gain_lt ar node g') pre \<and> list_all (gain_le ar node g') post"
        then obtain pre post where
          b: "filter ?nd cuts = pre @ c' # post"
            "infoGain_fl ar (data node) (fst c') (fst (snd c')) = Inr g'" "g < g'"
            "list_all (gain_lt ar node g') pre" "list_all (gain_le ar node g') post"
          by blast
        have "gain_lt ar node g' ?c"
          using g b(3) by (simp add: gain_lt_def)
        with b True show ?thesis
          by (intro exI [of _ "?c # pre"] exI [of _ post]) (simp add: nd)
      qed
      with draw cuts(2) show ?thesis
        by (intro exI [of _ "?c # cuts"]) simp
    next
      case le: False
      with Suc.prems cut False g
      have "bestCut_loop ar node features n (bg, bc) r1 = Inr ((g', c'), r')"
        by simp
      from Suc.IH [OF this] obtain cuts where
        cuts: "draw_cuts node features n r1 = Inr (cuts, r')" "length cuts = n"
          "(g', c') = (bg, bc) \<and> list_all (gain_le ar node bg) (filter ?nd cuts) \<or>
           (\<exists>pre post. filter ?nd cuts = pre @ c' # post \<and>
             infoGain_fl ar (data node) (fst c') (fst (snd c')) = Inr g' \<and> bg < g' \<and>
             list_all (gain_lt ar node g') pre \<and> list_all (gain_le ar node g') post)"
        by blast
      have draw: "draw_cuts node features (Suc n) r = Inr (?c # cuts, r')"
        using cut cuts(1) by simp
      have cle: "gain_le ar node bg ?c"
        using g le by (simp add: gain_le_def)
      from cuts(3) have "(g', c') = (bg, bc) \<and> list_all (gain_le ar node bg) (filter ?nd (?c # cuts)) \<or>
           (\<exists>pre post. filter ?nd (?c # cuts) = pre @ c' # post \<and>
             infoGain_fl ar (data node) (fst c') (fst (snd c')) = Inr g' \<and> bg < g' \<and>
             list_all (gain_lt ar node g') pre \<and> list_all (gain_le ar node g') post)"
      proof
        assume "(g', c') = (bg, bc) \<and> list_all (gain_le ar node bg) (filter ?nd cuts)"
        with cle show ?thesis by (simp add: nd)
      next
        assume "\<exists>pre post. filter ?nd cuts = pre @ c' # post \<and>
             infoGain_fl ar (data node) (fst c') (fst (snd c')) = Inr g' \<and> bg < g' \<and>
             list_all (gain_lt ar node g') pre \<and> list_all (gain_le ar node g') post"
        then obtain pre post where
          b: "filter ?nd cuts = pre @ c' # post"
            "infoGain_fl ar (data node) (fst c') (fst (snd c')) = Inr g'" "bg < g'"
            "list_all (gain_lt ar node g') pre" "list_all (gain_le ar node g') post"
          by blast
        from gain_le_lt_trans [OF cle b(3)] have "gain_lt ar node g' ?c" .
        with b have "filter ?nd (?c # cuts) = (?c # pre) @ c' # post \<and>
             infoGain_fl ar (data node) (fst c') (fst (snd c')) = Inr g' \<and> bg < g' \<and>
             list_all (gain_lt ar node g') (?c # pre) \<and> list_all (gain_le ar node g') post"
          by (simp add: nd)
        then show ?thesis by blast
      qed
      with draw cuts(2) show ?thesis
        by (intro exI [of _ "?c # cuts"]) simp
    qed
  qed
qed

text \<open>
  C1: let \<open>nb_cut \<ge> 1\<close>.  When \<open>bestCut\<close> returns, it has drawn \<open>nb_cut\<close> cuts one after the
  other, the first one and \<open>nb_cut - 1\<close> later ones.  Among the first cut and the later cuts
  that are not degenerate, taken in the order drawn, the cut returned is the one before which
  every cut has a computed gain strictly smaller and after which every cut has a computed
  gain smaller or equal: the greatest gain, and of two cuts with that gain the earlier one.
  The later cuts with an empty side play no part, and if all of them are degenerate the first
  cut is returned with its gain, whether or not it has an empty side itself.  The gain
  returned is the computed gain of the cut returned, and the question its feature and
  threshold.  On a dataset (a \<open>dict\<close>) with at least one vector and features that index
  every vector, \<open>bestCut\<close> does return.  The gains are those that the machine computes,
  whatever its arithmetic.
\<close>

theorem bestCut_first_greatest:
  assumes "1 \<le> nb_cut"
  shows "(bestCut ar node nb_cut features r = Inr (gain, c1, c2, q, r') \<longrightarrow>
     (\<exists>first later rf t pre post.
        draw_cuts node features (nat nb_cut) r = Inr (first # later, r') \<and>
        length (first # later) = nat nb_cut \<and>
        first # filter (\<lambda>c. \<not> degenerate c) later = pre @ (c1, c2, rf, t) # post \<and>
        q = (hd rf, t) \<and> infoGain_fl ar (data node) c1 c2 = Inr gain \<and>
        list_all (gain_lt ar node gain) pre \<and> list_all (gain_le ar node gain) post \<and>
        (list_all degenerate later \<longrightarrow> (c1, c2, rf, t) = first))) \<and>
   (is_dict (data node) \<and> 0 < lenDictValues (data node) \<and> valid_features (data node) features \<longrightarrow>
     (\<exists>gain c1 c2 q r'. bestCut ar node nb_cut features r = Inr (gain, c1, c2, q, r')))"
proof (intro conjI impI)
  let ?nd = "\<lambda>c. \<not> degenerate c"
  assume run: "bestCut ar node nb_cut features r = Inr (gain, c1, c2, q, r')"
  then obtain b1 b2 bf bt r1 where
    cut: "generateCut node features r = Inr (b1, b2, bf, bt, r1)"
    by (auto simp: bestCut_def split: sum.splits)
  with run obtain binfo where binfo: "infoGain_fl ar (data node) b1 b2 = Inr binfo"
    by (auto simp: bestCut_def split: sum.splits)
  with run cut obtain rf t where
    loop: "bestCut_loop ar node features (nat (nb_cut - 1)) (binfo, (b1, b2, bf, bt)) r1 =
       Inr ((gain, (c1, c2, rf, t)), r')" and q: "q = (hd rf, t)"
    by (auto simp: bestCut_def split: sum.splits)
  let ?first = "(b1, b2, bf, bt)"
  let ?c = "(c1, c2, rf, t)"
  from bestCut_loop_spec [OF loop] obtain later where
    draw: "draw_cuts node features (nat (nb_cut - 1)) r1 = Inr (later, r')"
    and len: "length later = nat (nb_cut - 1)"
    and alt: "(gain, ?c) = (binfo, ?first) \<and> list_all (gain_le ar node binfo) (filter ?nd later) \<or>
      (\<exists>pre post. filter ?nd later = pre @ ?c # post \<and>
         infoGain_fl ar (data node) (fst ?c) (fst (snd ?c)) = Inr gain \<and> binfo < gain \<and>
         list_all (gain_lt ar node gain) pre \<and> list_all (gain_le ar node gain) post)"
    by blast
  from assms have n: "nat nb_cut = Suc (nat (nb_cut - 1))" by simp
  have d: "draw_cuts node features (nat nb_cut) r = Inr (?first # later, r')"
    unfolding n using cut draw by simp
  have l: "length (?first # later) = nat nb_cut"
    using len n by simp
  from alt have "\<exists>pre post.
      ?first # filter ?nd later = pre @ ?c # post \<and>
      infoGain_fl ar (data node) c1 c2 = Inr gain \<and>
      list_all (gain_lt ar node gain) pre \<and> list_all (gain_le ar node gain) post \<and>
      (list_all degenerate later \<longrightarrow> ?c = ?first)"
  proof
    assume a: "(gain, ?c) = (binfo, ?first) \<and> list_all (gain_le ar node binfo) (filter ?nd later)"
    then have "?first # filter ?nd later = [] @ ?c # filter ?nd later" by simp
    moreover from a binfo have "infoGain_fl ar (data node) c1 c2 = Inr gain" by simp
    moreover from a have "list_all (gain_le ar node gain) (filter ?nd later)" by simp
    moreover from a have "?c = ?first" by simp
    ultimately show ?thesis
      by (intro exI [of _ "[]"] exI [of _ "filter ?nd later"]) simp
  next
    assume "\<exists>pre post. filter ?nd later = pre @ ?c # post \<and>
         infoGain_fl ar (data node) (fst ?c) (fst (snd ?c)) = Inr gain \<and> binfo < gain \<and>
         list_all (gain_lt ar node gain) pre \<and> list_all (gain_le ar node gain) post"
    then obtain pre post where
      b: "filter ?nd later = pre @ ?c # post"
        "infoGain_fl ar (data node) (fst ?c) (fst (snd ?c)) = Inr gain" "binfo < gain"
        "list_all (gain_lt ar node gain) pre" "list_all (gain_le ar node gain) post"
      by blast
    have "gain_lt ar node gain ?first"
      using binfo b(3) by (simp add: gain_lt_def)
    moreover have "\<not> list_all degenerate later"
    proof
      assume "list_all degenerate later"
      then have "filter ?nd later = []"
        by (simp add: list_all_iff filter_empty_conv)
      with b(1) show False by simp
    qed
    ultimately show ?thesis
      using b by (intro exI [of _ "?first # pre"] exI [of _ post]) simp
  qed
  with d l q show "\<exists>first later rf t pre post.
        draw_cuts node features (nat nb_cut) r = Inr (first # later, r') \<and>
        length (first # later) = nat nb_cut \<and>
        first # filter ?nd later = pre @ (c1, c2, rf, t) # post \<and>
        q = (hd rf, t) \<and> infoGain_fl ar (data node) c1 c2 = Inr gain \<and>
        list_all (gain_lt ar node gain) pre \<and> list_all (gain_le ar node gain) post \<and>
        (list_all degenerate later \<longrightarrow> (c1, c2, rf, t) = first)"
    by blast
next
  assume "is_dict (data node) \<and> 0 < lenDictValues (data node) \<and>
    valid_features (data node) features"
  then show "\<exists>gain c1 c2 q r'. bestCut ar node nb_cut features r = Inr (gain, c1, c2, q, r')"
    by (intro bestCut_returns) simp_all
qed

text \<open>
  An example with two cuts: the random source answers 0 except at its fourth draw, so the
  first cut takes the threshold 0 and has an empty left side, with gain 0, and the second cut
  takes the threshold 1, separates the two vectors and has gain \<open>1/2\<close>.
\<close>

lemma generateCut_example_first:
  "generateCut (Node_init [(0, [[0]]), (1, [[1]])]) [0]
     (\<lambda>i. if i = Suc (Suc (Suc 0)) then Suc 0 else 0) =
   Inr ([], [(0, [[0]]), (1, [[1]])], [0], 0, \<lambda>i. if i = Suc 0 then Suc 0 else 0)"
  by (simp add: generateCut_def rd_sample_one Node_init_def getitem_def rd_choice_def
      randbelow_def)

lemma generateCut_example_second:
  "generateCut (Node_init [(0, [[0]]), (1, [[1]])]) [0] (\<lambda>i. if i = Suc 0 then Suc 0 else 0) =
   Inr ([(0, [[0]])], [(1, [[1]])], [0], 1, \<lambda>_. 0)"
  by (simp add: generateCut_def rd_sample_one Node_init_def getitem_def rd_choice_def
      randbelow_def)

lemma infoGain_example_first:
  "infoGain_fl exact_arith (data (Node_init [(0, [[0]]), (1, [[1]])])) []
     [(0, [[0]]), (1, [[1]])] = Inr 0"
  by (simp add: infoGain_fl_exact infoGain_def gini_def lenDictValues_def Node_init_def)

lemma infoGain_example_second:
  "infoGain_fl exact_arith (data (Node_init [(0, [[0]]), (1, [[1]])])) [(0, [[0]])]
     [(1, [[1]])] = Inr (1 / 2)"
  by (simp add: infoGain_fl_exact infoGain_def gini_def lenDictValues_def Node_init_def
      power2_eq_square)

lemma bestCut_example_two:
  "bestCut exact_arith (Node_init [(0, [[0]]), (1, [[1]])]) 2 [0]
     (\<lambda>i. if i = Suc (Suc (Suc 0)) then Suc 0 else 0) =
   Inr (1 / 2, [(0, [[0]])], [(1, [[1]])], (0, 1), \<lambda>_. 0)"
proof -
  have n: "nat (2 - 1) = Suc 0" by simp
  show ?thesis
    unfolding bestCut_def n
    by (simp add: generateCut_example_first generateCut_example_second infoGain_example_first
        infoGain_example_second)
qed

lemma draw_cuts_example:
  "draw_cuts (Node_init [(0, [[0]]), (1, [[1]])]) [0] (nat 2)
     (\<lambda>i. if i = Suc (Suc (Suc 0)) then Suc 0 else 0) =
   Inr ([([], [(0, [[0]]), (1, [[1]])], [0], 0), ([(0, [[0]])], [(1, [[1]])], [0], 1)], \<lambda>_. 0)"
proof -
  have n: "nat 2 = Suc (Suc 0)" by simp
  show ?thesis
    unfolding n
    by (simp add: generateCut_example_first generateCut_example_second)
qed

theorem bestCut_first_greatest_witness:
  "bestCut exact_arith (Node_init [(0, [[0]]), (1, [[1]])]) 2 [0]
     (\<lambda>i. if i = Suc (Suc (Suc 0)) then Suc 0 else 0) =
     Inr (1 / 2, [(0, [[0]])], [(1, [[1]])], (0, 1), \<lambda>_. 0) \<and>
   draw_cuts (Node_init [(0, [[0]]), (1, [[1]])]) [0] (nat 2)
     (\<lambda>i. if i = Suc (Suc (Suc 0)) then Suc 0 else 0) =
     Inr ([([], [(0, [[0]]), (1, [[1]])], [0], 0), ([(0, [[0]])], [(1, [[1]])], [0], 1)], \<lambda>_. 0) \<and>
   (\<exists>first later rf t pre post.
      draw_cuts (Node_init [(0, [[0]]), (1, [[1]])]) [0] (nat 2)
        (\<lambda>i. if i = Suc (Suc (Suc 0)) then Suc 0 else 0) = Inr (first # later, \<lambda>_. 0) \<and>
      length (first # later) = nat 2 \<and>
      first # filter (\<lambda>c. \<not> degenerate c) later = pre @ ([(0, [[0]])], [(1, [[1]])], rf, t) # post \<and>
      (0, 1) = (hd rf, t) \<and>
      infoGain_fl exact_arith (data (Node_init [(0, [[0]]), (1, [[1]])])) [(0, [[0]])] [(1, [[1]])] =
        Inr (1 / 2) \<and>
      list_all (gain_lt exact_arith (Node_init [(0, [[0]]), (1, [[1]])]) (1 / 2)) pre \<and>
      list_all (gain_le exact_arith (Node_init [(0, [[0]]), (1, [[1]])]) (1 / 2)) post \<and>
      (list_all degenerate later \<longrightarrow> ([(0, [[0]])], [(1, [[1]])], rf, t) = first)) \<and>
   (\<exists>gain c1 c2 q r'. bestCut exact_arith (Node_init [(0, [[0]]), (1, [[1]])]) 2 [0]
      (\<lambda>i. if i = Suc (Suc (Suc 0)) then Suc 0 else 0) = Inr (gain, c1, c2, q, r'))"
proof -
  let ?N = "Node_init [(0, [[0]]), (1, [[1]])]"
  let ?R = "\<lambda>i. if i = Suc (Suc (Suc 0)) then Suc 0 else (0::nat)"
  have two: "(1::int) \<le> 2" by simp
  have v: "is_dict (data ?N) \<and> 0 < lenDictValues (data ?N) \<and> valid_features (data ?N) [0]"
    by (simp add: Node_init_def is_dict_def lenDictValues_def valid_features_def points_of_def
        valid_index_def)
  note a = bestCut_first_greatest [OF two, of exact_arith ?N "[0]" ?R "1 / 2" "[(0, [[0]])]"
      "[(1, [[1]])]" "(0, 1)" "\<lambda>_. 0", THEN conjunct1, THEN mp, OF bestCut_example_two]
  note b = bestCut_first_greatest [OF two, of exact_arith ?N "[0]" ?R, THEN conjunct2, THEN mp,
      OF v]
  from bestCut_example_two draw_cuts_example a b show ?thesis
    by (intro conjI)
qed

end
